theory Spec2Isabelle
  imports Complex_Main
begin

section \<open>Personalized buy-probability and absorbing Markov waste estimator\<close>

text \<open>
  A shallow embedding of \<^verbatim>\<open>backend/utils/markov_waste_estimator.py\<close>.
  Python floats are modelled as real numbers (exact arithmetic), Python integers as
  \<open>int\<close> or, where the stored data is a count, as \<open>nat\<close>. Every exception the
  source can raise is a value of \<open>py_error\<close>, a function that may raise returns
  \<open>py_error + 'a\<close>. The SQLAlchemy tables the module queries are the fields of the
  record \<open>database\<close>; the module-level flag \<^verbatim>\<open>MODELS_AVAILABLE\<close> is one of them.
\<close>

subsection \<open>Data model\<close>

datatype py_error = ValueError | ZeroDivisionError | IndexError | OverflowError

record price_curve =
  category :: string
  x_discount_bins :: "real list"
  y_pbuy :: "real list"

record user_discount_stat =
  stat_user_id :: int
  stat_product_name :: string
  bin_low :: real
  bin_high :: real
  trials :: nat
  buys :: nat

record product_lca =
  lca_product_name :: string
  displacement :: real
  mass_kg :: real
  ef_prod_kgco2e_perkg :: real
  ef_disposal_kgco2e_perunit :: real

text \<open>
  An inventory row; \<open>freshness\<close> is \<open>None\<close> when the row has no FreshnessStatus,
  otherwise the stored \<^verbatim>\<open>freshness_score\<close>.
\<close>

record fruit_inventory =
  item_id :: int
  store_id :: int
  fruit_type :: string
  quantity :: int
  current_price :: real
  original_price :: real
  freshness :: "real option"

record database =
  models_available :: bool
  price_curves :: "price_curve list"
  user_discount_stats :: "user_discount_stat list"
  product_lcas :: "product_lca list"
  inventory :: "fruit_inventory list"
  customers :: "int list"

text \<open>A pricing policy, the dictionary \<^verbatim>\<open>{'dmax': ..., 'alpha': ...}\<close>.\<close>

record policy_params =
  dmax :: real
  alpha :: real

subsection \<open>Discount curve\<close>

text \<open>The largest finite double, \<^verbatim>\<open>sys.float_info.max\<close>.\<close>

definition float_max :: real where
  "float_max = (2 - 1 / 2 ^ 52) * 2 ^ 1023"

text \<open>
  Python's \<^verbatim>\<open>x ** y\<close> on floats for a base \<open>x \<ge> 0\<close> (the only bases the module
  passes): \<^verbatim>\<open>0.0 ** 0.0\<close> is 1, \<^verbatim>\<open>0.0 ** y\<close> raises ZeroDivisionError for negative
  \<open>y\<close> and is 0 for positive \<open>y\<close>; for a positive base the result is the power, and
  OverflowError is raised when the power exceeds the largest finite double
  (\<^verbatim>\<open>0.5 ** -2000.0\<close>). A power too small for a double is returned without an error.
\<close>

definition py_pow :: "real \<Rightarrow> real \<Rightarrow> py_error + real" where
  "py_pow x y =
     (if x = 0 then
        (if y = 0 then Inr 1 else if y < 0 then Inl ZeroDivisionError else Inr 0)
      else if float_max < x powr y then Inl OverflowError
      else Inr (x powr y))"

definition calculate_discount_from_freshness :: "real \<Rightarrow> real \<Rightarrow> real \<Rightarrow> py_error + real" where
  "calculate_discount_from_freshness freshness_score max_discount pw =
     (if \<not> (0 \<le> freshness_score \<and> freshness_score \<le> 1) then Inl ValueError
      else
        let max_discount = (if max_discount > 1 then max_discount / 100 else max_discount)
        in case py_pow freshness_score pw of
             Inl e \<Rightarrow> Inl e
           | Inr fp \<Rightarrow>
               let discount = max_discount * (1 - fp)
               in Inr (max 0 (min max_discount discount)))"

subsection \<open>Population buy probability\<close>

text \<open>
  \<^verbatim>\<open>numpy.interp(x, xp, fp, left, right)\<close> for one sample point and a non-empty,
  non-decreasing \<open>xp\<close> of the length of \<open>fp\<close> (numpy's documented precondition):
  \<open>right\<close> above the last point, \<open>left\<close> below the first one, otherwise the segment
  \<open>j\<close> with \<open>xp[j] \<le> x < xp[j+1]\<close> is located and the value is \<open>fp[j]\<close> when
  \<open>x = xp[j]\<close> or \<open>j\<close> is the last index, and
  \<open>(fp[j+1] - fp[j]) / (xp[j+1] - xp[j]) * (x - xp[j]) + fp[j]\<close> otherwise.
  \<open>interp_seg\<close> is the search over the control points from the left.
\<close>

fun interp_seg :: "real \<Rightarrow> (real \<times> real) list \<Rightarrow> real" where
  "interp_seg x [] = 0"
| "interp_seg x [(x0, y0)] = y0"
| "interp_seg x ((x0, y0) # (x1, y1) # ps) =
     (if x1 \<le> x then interp_seg x ((x1, y1) # ps)
      else if x0 = x then y0
      else (y1 - y0) / (x1 - x0) * (x - x0) + y0)"

definition np_interp :: "real \<Rightarrow> real list \<Rightarrow> real list \<Rightarrow> real \<Rightarrow> real \<Rightarrow> real" where
  "np_interp x xp fp left right =
     (if x > last xp then right
      else if x < hd xp then left
      else interp_seg x (zip xp fp))"

definition p_buy_pop_interp :: "database \<Rightarrow> real \<Rightarrow> string \<Rightarrow> real" where
  "p_buy_pop_interp db discount_pct cat =
     (if \<not> models_available db then min 0.9 (0.05 + (discount_pct / 100) * 0.85)
      else
        case find (\<lambda>c. category c = cat) (price_curves db) of
          None \<Rightarrow> min 0.9 (0.05 + (discount_pct / 100) * 0.85)
        | Some curve \<Rightarrow>
            let bins = x_discount_bins curve; probs = y_pbuy curve
            in if bins = [] \<or> probs = [] \<or> length bins \<noteq> length probs then 0.05
               else np_interp discount_pct bins probs
                      (if probs \<noteq> [] then hd probs else 0.05)
                      (if probs \<noteq> [] then last probs else 0.9))"

subsection \<open>Personalized and blended buy probability\<close>

definition p_buy_user_beta :: "database \<Rightarrow> int \<Rightarrow> string \<Rightarrow> real \<Rightarrow> real \<times> nat" where
  "p_buy_user_beta db user_id product_name discount_pct =
     (if \<not> models_available db then (0, 0)
      else
        let user_stats = filter (\<lambda>r. stat_user_id r = user_id \<and> stat_product_name r = product_name)
                           (user_discount_stats db);
            matches = filter (\<lambda>r. bin_low r \<le> discount_pct \<and> discount_pct < bin_high r) user_stats;
            n = sum_list (map trials matches);
            b = sum_list (map buys matches)
        in if n = 0 then (0, 0) else ((real b + 1) / (real n + 2), n))"

text \<open>The blending parameter \<open>m\<close> is a count (15 by default).\<close>

definition p_buy_blend :: "database \<Rightarrow> int \<Rightarrow> string \<Rightarrow> string \<Rightarrow> real \<Rightarrow> nat \<Rightarrow> real" where
  "p_buy_blend db user_id product_name cat discount_pct m =
     (let p_pop = p_buy_pop_interp db discount_pct cat;
          (p_user, n) = p_buy_user_beta db user_id product_name discount_pct
      in if n = 0 then p_pop
         else let w = real n / (real n + real m)
              in w * p_user + (1 - w) * p_pop)"

subsection \<open>Dense matrices and the linear solver\<close>

text \<open>
  A numpy array of two dimensions is its entry function; the shape is carried by the
  code that uses it. \<open>np_zeros\<close> is \<^verbatim>\<open>np.zeros\<close>, \<open>np_eye\<close> is \<^verbatim>\<open>np.eye\<close>,
  \<open>mat_set\<close> is the assignment \<^verbatim>\<open>A[i, j] = v\<close>, \<open>mat_sub\<close> is \<^verbatim>\<open>A - B\<close> and
  \<open>matmul n\<close> is \<^verbatim>\<open>A @ B\<close> with inner dimension \<open>n\<close>.
\<close>

type_synonym matrix = "nat \<Rightarrow> nat \<Rightarrow> real"

definition np_zeros :: matrix where
  "np_zeros = (\<lambda>i j. 0)"

definition np_eye :: matrix where
  "np_eye = (\<lambda>i j. if i = j then 1 else 0)"

definition mat_set :: "matrix \<Rightarrow> nat \<Rightarrow> nat \<Rightarrow> real \<Rightarrow> matrix" where
  "mat_set A i j v = A(i := (A i)(j := v))"

definition mat_sub :: "matrix \<Rightarrow> matrix \<Rightarrow> matrix" where
  "mat_sub A B = (\<lambda>i j. A i j - B i j)"

definition matmul :: "nat \<Rightarrow> matrix \<Rightarrow> matrix \<Rightarrow> matrix" where
  "matmul n A B = (\<lambda>i j. \<Sum>l<n. A i l * B l j)"

text \<open>
  Reading \<^verbatim>\<open>A[i, j]\<close> from an array of shape \<open>(rows, cols)\<close>: a negative index counts
  from the end, an index out of range raises IndexError.
\<close>

definition py_index :: "int \<Rightarrow> nat \<Rightarrow> py_error + nat" where
  "py_index i n =
     (let j = (if i < 0 then i + int n else i)
      in if 0 \<le> j \<and> j < int n then Inr (nat j) else Inl IndexError)"

definition mat_get :: "matrix \<Rightarrow> nat \<Rightarrow> nat \<Rightarrow> int \<Rightarrow> int \<Rightarrow> py_error + real" where
  "mat_get A rows cols i j =
     (case py_index i rows of
        Inl e \<Rightarrow> Inl e
      | Inr r \<Rightarrow> (case py_index j cols of Inl e \<Rightarrow> Inl e | Inr c \<Rightarrow> Inr (A r c)))"

text \<open>
  \<^verbatim>\<open>np.linalg.inv\<close> in exact arithmetic: elimination with partial pivoting (the row of
  largest absolute value in the column, the first one among equals), on the matrix and
  on the identity beside it. A column whose pivot is zero makes the matrix singular:
  the result is \<open>None\<close>, numpy's LinAlgError. The inverse of the empty matrix is the
  empty matrix.
\<close>

definition pivot_row :: "nat \<Rightarrow> nat \<Rightarrow> matrix \<Rightarrow> nat option" where
  "pivot_row n j A =
     (let best = fold (\<lambda>i b. if \<bar>A i j\<bar> > \<bar>A b j\<bar> then i else b) [Suc j..<n] j
      in if A best j = 0 then None else Some best)"

definition swap_rows :: "nat \<Rightarrow> nat \<Rightarrow> matrix \<Rightarrow> matrix" where
  "swap_rows i j A = (\<lambda>r. if r = i then A j else if r = j then A i else A r)"

definition scale_row :: "nat \<Rightarrow> real \<Rightarrow> matrix \<Rightarrow> matrix" where
  "scale_row i c A = (\<lambda>r. if r = i then (\<lambda>k. c * A i k) else A r)"

definition eliminate_col :: "nat \<Rightarrow> (nat \<Rightarrow> real) \<Rightarrow> matrix \<Rightarrow> matrix" where
  "eliminate_col j f A = (\<lambda>r. if r = j then A j else (\<lambda>k. A r k - f r * A j k))"

definition gj_step :: "nat \<Rightarrow> nat \<Rightarrow> matrix \<times> matrix \<Rightarrow> (matrix \<times> matrix) option" where
  "gj_step n j AN =
     (case AN of (A, N) \<Rightarrow>
        (case pivot_row n j A of
           None \<Rightarrow> None
         | Some p \<Rightarrow>
             let A1 = swap_rows j p A; N1 = swap_rows j p N;
                 c = 1 / A1 j j;
                 A2 = scale_row j c A1; N2 = scale_row j c N1;
                 f = (\<lambda>r. A2 r j)
             in Some (eliminate_col j f A2, eliminate_col j f N2)))"

fun gauss_jordan :: "nat \<Rightarrow> nat list \<Rightarrow> matrix \<times> matrix \<Rightarrow> (matrix \<times> matrix) option" where
  "gauss_jordan n [] AN = Some AN"
| "gauss_jordan n (j # js) AN =
     (case gj_step n j AN of None \<Rightarrow> None | Some AN' \<Rightarrow> gauss_jordan n js AN')"

definition linalg_inv :: "nat \<Rightarrow> matrix \<Rightarrow> matrix option" where
  "linalg_inv n A = map_option snd (gauss_jordan n [0..<n] (A, np_eye))"

text \<open>
  The determinant of the leading \<open>n \<times> n\<close> block, by expansion along the first column;
  \<open>minor_mat i j A\<close> is \<open>A\<close> without row \<open>i\<close> and column \<open>j\<close>.
\<close>

definition minor_mat :: "nat \<Rightarrow> nat \<Rightarrow> matrix \<Rightarrow> matrix" where
  "minor_mat i j A = (\<lambda>r c. A (if r < i then r else Suc r) (if c < j then c else Suc c))"

fun det :: "nat \<Rightarrow> matrix \<Rightarrow> real" where
  "det 0 A = 1"
| "det (Suc n) A = (\<Sum>i<Suc n. (- 1) ^ i * A i 0 * det n (minor_mat i 0 A))"

subsection \<open>Absorbing Markov chain\<close>

text \<open>Python's \<^verbatim>\<open>int(x)\<close> on a float truncates towards zero.\<close>

definition py_int :: "real \<Rightarrow> int" where
  "py_int x = (if 0 \<le> x then \<lfloor>x\<rfloor> else \<lceil>x\<rceil>)"

text \<open>
  One pass of the loop body for bucket \<open>k\<close> of \<open>K\<close>, on the pair \<open>(Q, R)\<close>;
  \<^verbatim>\<open>p_buy_blend\<close> is called with its default \<open>m = 15\<close>.
\<close>

definition markov_bucket ::
  "database \<Rightarrow> real \<Rightarrow> real \<Rightarrow> nat \<Rightarrow> int \<Rightarrow> string \<Rightarrow> string \<Rightarrow> nat \<Rightarrow> matrix \<times> matrix
     \<Rightarrow> py_error + matrix \<times> matrix" where
  "markov_bucket db dmx alph K user_id product_name cat k QR =
     (case QR of (Q, R) \<Rightarrow>
        (let Fk = 1 - (real k - 1) / real K
         in (case calculate_discount_from_freshness Fk dmx alph of
               Inl e \<Rightarrow> Inl e
             | Inr dk \<Rightarrow>
                 let dk_pct = dk * 100;
                     p = p_buy_blend db user_id product_name cat dk_pct 15
                 in if k < K then Inr (mat_set Q (k - 1) k (1 - p), mat_set R (k - 1) 0 p)
                    else Inr (Q, mat_set (mat_set R (k - 1) 0 p) (k - 1) 1 (1 - p)))))"

fun markov_loop ::
  "database \<Rightarrow> real \<Rightarrow> real \<Rightarrow> nat \<Rightarrow> int \<Rightarrow> string \<Rightarrow> string \<Rightarrow> nat list \<Rightarrow> matrix \<times> matrix
     \<Rightarrow> py_error + matrix \<times> matrix" where
  "markov_loop db dmx alph K user_id product_name cat [] QR = Inr QR"
| "markov_loop db dmx alph K user_id product_name cat (k # ks) QR =
     (case markov_bucket db dmx alph K user_id product_name cat k QR of
        Inl e \<Rightarrow> Inl e
      | Inr QR' \<Rightarrow> markov_loop db dmx alph K user_id product_name cat ks QR')"

text \<open>
  \<^verbatim>\<open>sold_prob_markov\<close> with the linear solver as a parameter: \<open>solver n A\<close> is
  \<open>None\<close> when the solver raises LinAlgError. \<^verbatim>\<open>np.zeros((K, K))\<close> raises ValueError
  for a negative \<open>K\<close>; the loop runs over \<^verbatim>\<open>range(1, K + 1)\<close>.
\<close>

definition sold_prob_markov_with ::
  "(nat \<Rightarrow> matrix \<Rightarrow> matrix option) \<Rightarrow> database \<Rightarrow> real \<Rightarrow> real \<Rightarrow> real \<Rightarrow> int \<Rightarrow> real \<Rightarrow> int
     \<Rightarrow> string \<Rightarrow> string \<Rightarrow> py_error + real" where
  "sold_prob_markov_with solver db fresh dmx alph K dt_hours user_id product_name cat =
     (let k0 = py_int ((1 - max 0 (min 1 fresh)) * real_of_int K) + 1;
          k0 = min k0 K
      in if K < 0 then Inl ValueError
         else
           let n = nat K
           in case markov_loop db dmx alph n user_id product_name cat [1..<n + 1]
                     (np_zeros, np_zeros) of
                Inl e \<Rightarrow> Inl e
              | Inr (Q, R) \<Rightarrow>
                  (case solver n (mat_sub np_eye Q) of
                     None \<Rightarrow> Inr 0
                   | Some N \<Rightarrow>
                       let B = matmul n N R
                       in mat_get B n 2 (k0 - 1) 0))"

definition sold_prob_markov ::
  "database \<Rightarrow> real \<Rightarrow> real \<Rightarrow> real \<Rightarrow> int \<Rightarrow> real \<Rightarrow> int \<Rightarrow> string \<Rightarrow> string \<Rightarrow> py_error + real" where
  "sold_prob_markov = sold_prob_markov_with linalg_inv"

subsection \<open>Per-lot impact\<close>

definition estimate_units_saved ::
  "database \<Rightarrow> int \<Rightarrow> policy_params \<Rightarrow> policy_params \<Rightarrow> int \<Rightarrow> int \<Rightarrow> real \<Rightarrow> py_error + real" where
  "estimate_units_saved db lot_id baseline_params dynamic_params user_id K dt_hours =
     (if \<not> models_available db then Inr 0
      else
        case find (\<lambda>i. item_id i = lot_id) (inventory db) of
          None \<Rightarrow> Inr 0
        | Some inventory_item \<Rightarrow>
            (let current_freshness =
                  (case freshness inventory_item of
                     Some freshness_score \<Rightarrow>
                       let freshness_score =
                             (if freshness_score > 1 then freshness_score / 100 else freshness_score)
                       in max 0 (min 1 freshness_score)
                   | None \<Rightarrow> 1);
                 product_name = fruit_type inventory_item;
                 cat = product_name
             in (case sold_prob_markov db current_freshness (dmax dynamic_params)
                       (alpha dynamic_params) K dt_hours user_id product_name cat of
                  Inl e \<Rightarrow> Inl e
                | Inr ps_dyn \<Rightarrow>
                    (case sold_prob_markov db current_freshness (dmax baseline_params)
                            (alpha baseline_params) K dt_hours user_id product_name cat of
                       Inl e \<Rightarrow> Inl e
                     | Inr ps_base \<Rightarrow>
                         Inr (max 0 (real_of_int (quantity inventory_item) * (ps_dyn - ps_base)))))))"

text \<open>
  The fallback tables of \<^verbatim>\<open>utils/waste_impact.py\<close>; \<open>str_lower\<close> is \<^verbatim>\<open>str.lower\<close> on
  ASCII letters.
\<close>

definition str_lower :: "string \<Rightarrow> string" where
  "str_lower s =
     map (\<lambda>c. if 65 \<le> (of_char c :: nat) \<and> (of_char c :: nat) \<le> 90
               then char_of ((of_char c :: nat) + 32) else c) s"

definition CO2_EMISSION_FACTORS :: "(string \<times> real) list" where
  "CO2_EMISSION_FACTORS =
     [(''apple'', 0.43), (''banana'', 0.48), (''orange'', 0.39), (''strawberry'', 0.67),
      (''grape'', 0.46), (''avocado'', 0.85), (''tomato'', 0.25), (''lettuce'', 0.35),
      (''blueberry'', 0.72), (''mango'', 0.55), (''pear'', 0.40), (''watermelon'', 0.30),
      (''peach'', 0.38), (''cherry'', 0.65), (''default'', 0.45)]"

definition AVERAGE_WEIGHT_PER_UNIT :: "(string \<times> real) list" where
  "AVERAGE_WEIGHT_PER_UNIT =
     [(''apple'', 0.18), (''banana'', 0.12), (''orange'', 0.15), (''strawberry'', 0.02),
      (''grape'', 0.005), (''avocado'', 0.20), (''tomato'', 0.15), (''lettuce'', 0.30),
      (''blueberry'', 0.001), (''mango'', 0.35), (''pear'', 0.18), (''watermelon'', 4.5),
      (''peach'', 0.15), (''cherry'', 0.008), (''default'', 0.15)]"

definition get_emission_factor :: "string \<Rightarrow> real" where
  "get_emission_factor ft =
     (case map_of CO2_EMISSION_FACTORS (str_lower ft) of Some v \<Rightarrow> v | None \<Rightarrow> 0.45)"

definition get_average_weight :: "string \<Rightarrow> real" where
  "get_average_weight ft =
     (case map_of AVERAGE_WEIGHT_PER_UNIT (str_lower ft) of Some v \<Rightarrow> v | None \<Rightarrow> 0.15)"

definition calculate_weight_from_quantity :: "string \<Rightarrow> real \<Rightarrow> real" where
  "calculate_weight_from_quantity ft qty = qty * get_average_weight ft"

definition estimate_co2e_saved :: "database \<Rightarrow> real \<Rightarrow> string \<Rightarrow> real" where
  "estimate_co2e_saved db units_saved product_name =
     (if \<not> models_available db \<or> units_saved \<le> 0 then 0
      else
        case find (\<lambda>l. lca_product_name l = product_name) (product_lcas db) of
          None \<Rightarrow>
            let emission_factor = get_emission_factor product_name;
                mass = get_average_weight product_name;
                co2e_per_unit = mass * emission_factor
            in units_saved * co2e_per_unit
        | Some lca \<Rightarrow>
            let co2e_per_unit =
                  displacement lca * mass_kg lca * ef_prod_kgco2e_perkg lca
                  + ef_disposal_kgco2e_perunit lca
            in units_saved * co2e_per_unit)"

definition estimate_additional_revenue_generated :: "real \<Rightarrow> string \<Rightarrow> real \<Rightarrow> real" where
  "estimate_additional_revenue_generated units_saved product_name avg_price_per_unit =
     units_saved * avg_price_per_unit"

subsection \<open>Portfolio aggregate\<close>

text \<open>
  Python's \<^verbatim>\<open>round(x, 2)\<close>, on real numbers: to the nearest multiple of 1/100, a tie
  to the even one.
\<close>

definition round2 :: "real \<Rightarrow> real" where
  "round2 x =
     (let y = x * 100; f = \<lfloor>y\<rfloor>; r = y - real_of_int f
      in real_of_int (if r < 1 / 2 then f else if r > 1 / 2 then f + 1
                      else if even f then f else f + 1) / 100)"

record impact_metrics =
  units_saved :: real
  waste_saved_kg :: real
  co2e_saved :: real
  revenue_generated :: real

definition zero_metrics :: impact_metrics where
  "zero_metrics = \<lparr>units_saved = 0, waste_saved_kg = 0, co2e_saved = 0, revenue_generated = 0\<rparr>"

text \<open>
  The body of the loop over the inventory items, on the four running totals. An
  exception raised while an item is processed leaves the totals as they are
  (\<^verbatim>\<open>except Exception: continue\<close>); \<^verbatim>\<open>estimate_units_saved\<close> is called with its defaults
  \<open>K = 48\<close> and \<open>dt_hours = 1.0\<close>.
\<close>

definition aggregate_item ::
  "database \<Rightarrow> policy_params \<Rightarrow> policy_params \<Rightarrow> int \<Rightarrow> fruit_inventory \<Rightarrow> impact_metrics
     \<Rightarrow> impact_metrics" where
  "aggregate_item db baseline_params dynamic_params user_id item totals =
     (case estimate_units_saved db (item_id item) baseline_params dynamic_params user_id 48 1 of
        Inl e \<Rightarrow> totals
      | Inr units \<Rightarrow>
          if units > 0 then
            let co2e = estimate_co2e_saved db units (fruit_type item);
                revenue = estimate_additional_revenue_generated units (fruit_type item)
                            (if current_price item > 0 then current_price item
                             else original_price item);
                weight_kg = calculate_weight_from_quantity (fruit_type item) units
            in \<lparr>units_saved = units_saved totals + units,
                waste_saved_kg = waste_saved_kg totals + weight_kg,
                co2e_saved = co2e_saved totals + co2e,
                revenue_generated = revenue_generated totals + revenue\<rparr>
          else totals)"

definition compute_aggregate_impact ::
  "database \<Rightarrow> int option \<Rightarrow> int option \<Rightarrow> policy_params option \<Rightarrow> policy_params option
     \<Rightarrow> impact_metrics" where
  "compute_aggregate_impact db store user_id baseline_params dynamic_params =
     (if \<not> models_available db then zero_metrics
      else
        let baseline_params =
              (case baseline_params of None \<Rightarrow> \<lparr>dmax = 0, alpha = 1\<rparr> | Some b \<Rightarrow> b);
            dynamic_params =
              (case dynamic_params of None \<Rightarrow> \<lparr>dmax = 0.75, alpha = 1.5\<rparr> | Some d \<Rightarrow> d)
        in case (case user_id of
                   None \<Rightarrow> (case customers db of [] \<Rightarrow> None | c # cs \<Rightarrow> Some c)
                 | Some u \<Rightarrow> Some u) of
             None \<Rightarrow> zero_metrics
           | Some uid \<Rightarrow>
               let items = filter (\<lambda>i. quantity i > 0) (inventory db);
                   items = (case store of
                              None \<Rightarrow> items
                            | Some s \<Rightarrow> if s \<noteq> 0 then filter (\<lambda>i. store_id i = s) items
                                        else items)
               in if length items = 0 then zero_metrics
                  else
                    let totals = fold (aggregate_item db baseline_params dynamic_params uid)
                                   items zero_metrics
                    in \<lparr>units_saved = round2 (units_saved totals),
                        waste_saved_kg = round2 (waste_saved_kg totals),
                        co2e_saved = round2 (co2e_saved totals),
                        revenue_generated = round2 (revenue_generated totals)\<rparr>)"

subsection \<open>The per-bucket sale probability\<close>

text \<open>
  The value of \<open>p\<close> that the loop body of \<^verbatim>\<open>sold_prob_markov\<close> computes for bucket
  \<open>k\<close> of \<open>K\<close>: the blended probability at the discount of the bucket's freshness.
\<close>

definition bucket_prob ::
  "database \<Rightarrow> real \<Rightarrow> real \<Rightarrow> nat \<Rightarrow> int \<Rightarrow> string \<Rightarrow> string \<Rightarrow> nat \<Rightarrow> real" where
  "bucket_prob db dmx alph K user_id product_name cat k =
     (case calculate_discount_from_freshness (1 - (real k - 1) / real K) dmx alph of
        Inl e \<Rightarrow> 0
      | Inr dk \<Rightarrow> p_buy_blend db user_id product_name cat (dk * 100) 15)"

text \<open>
  Whether \<^verbatim>\<open>Fk ** alpha\<close> overflows at one of the buckets \<open>1, \<dots>, K\<close> of the loop of
  \<^verbatim>\<open>sold_prob_markov\<close>.
\<close>

definition power_overflows :: "nat \<Rightarrow> real \<Rightarrow> bool" where
  "power_overflows K alph =
     (\<exists>k\<in>{1..K}. py_pow (1 - (real k - 1) / real K) alph = Inl OverflowError)"

subsection \<open>Example databases\<close>

text \<open>A customer with a purchase history at low discounts, no stored price curve.\<close>

definition loyal_db :: database where
  "loyal_db =
     \<lparr>models_available = True, price_curves = [],
      user_discount_stats =
        [\<lparr>stat_user_id = 1, stat_product_name = ''apple'', bin_low = 0, bin_high = 10,
          trials = 100, buys = 100\<rparr>],
      product_lcas = [], inventory = [], customers = [1]\<rparr>"

text \<open>A stored curve without control points.\<close>

definition malformed_db :: database where
  "malformed_db =
     \<lparr>models_available = True,
      price_curves = [\<lparr>category = ''apple'', x_discount_bins = [], y_pbuy = []\<rparr>],
      user_discount_stats = [], product_lcas = [], inventory = [], customers = [1]\<rparr>"

text \<open>A stored curve whose buy probability falls as the discount grows.\<close>

definition decreasing_db :: database where
  "decreasing_db =
     \<lparr>models_available = True,
      price_curves = [\<lparr>category = ''apple'', x_discount_bins = [0, 50], y_pbuy = [0.9, 0.1]\<rparr>],
      user_discount_stats = [], product_lcas = [], inventory = [], customers = [1]\<rparr>"

text \<open>The seeded curve and life-cycle data for apples, one lot in stock, one customer.\<close>

definition seeded_db :: database where
  "seeded_db =
     \<lparr>models_available = True,
      price_curves =
        [\<lparr>category = ''apple'', x_discount_bins = [0, 10, 25, 50, 75],
          y_pbuy = [0.05, 0.15, 0.45, 0.75, 0.90]\<rparr>],
      user_discount_stats = [],
      product_lcas =
        [\<lparr>lca_product_name = ''apple'', displacement = 1, mass_kg = 0.18,
          ef_prod_kgco2e_perkg = 0.43, ef_disposal_kgco2e_perunit = 0.08\<rparr>],
      inventory =
        [\<lparr>item_id = 1, store_id = 1, fruit_type = ''apple'', quantity = 100,
          current_price = 0, original_price = 2, freshness = Some 0.2\<rparr>],
      customers = [1]\<rparr>"

text \<open>One spoiled lot in stock, no stored curve, no customer.\<close>

definition no_customer_db :: database where
  "no_customer_db =
     \<lparr>models_available = True, price_curves = [], user_discount_stats = [], product_lcas = [],
      inventory =
        [\<lparr>item_id = 1, store_id = 1, fruit_type = ''apple'', quantity = 100,
          current_price = 1, original_price = 2, freshness = Some 0\<rparr>],
      customers = []\<rparr>"

section \<open>Properties\<close>

subsection \<open>The linear solver\<close>

lemma sum_delta_left:
  fixes f :: "nat \<Rightarrow> real"
  assumes "i < n"
  shows "(\<Sum>l<n. (if i = l then 1 else 0) * f l) = f i"
proof -
  have "(\<Sum>l<n. (if i = l then 1 else 0) * f l) = (\<Sum>l\<in>{..<n}. if l = i then f l else 0)"
    by (intro sum.cong) auto
  also have "\<dots> = f i" using assms by (simp add: sum.delta)
  finally show ?thesis .
qed

lemma fold_pick_mem:
  "fold (\<lambda>i b. if P i b then i else b) xs b0 \<in> insert b0 (set xs)"
  by (induction xs arbitrary: b0) (auto split: if_splits)

lemma fold_pick_all_zero:
  "\<forall>i\<in>set xs. A i j = (0::real) \<Longrightarrow>
     fold (\<lambda>i b. if \<bar>A i j\<bar> > \<bar>A b j\<bar> then i else b) xs b0 = b0"
  by (induction xs arbitrary: b0) auto

lemma pivot_row_Some:
  assumes "pivot_row n j A = Some p" "j < n"
  shows "j \<le> p \<and> p < n \<and> A p j \<noteq> 0"
proof -
  let ?b = "fold (\<lambda>i b. if \<bar>A i j\<bar> > \<bar>A b j\<bar> then i else b) [Suc j..<n] j"
  have "?b \<in> insert j (set [Suc j..<n])" by (rule fold_pick_mem)
  then have "j \<le> ?b \<and> ?b < n" using assms(2) by auto
  moreover have "p = ?b \<and> A ?b j \<noteq> 0"
    using assms(1) by (auto simp: pivot_row_def Let_def split: if_splits)
  ultimately show ?thesis by simp
qed

lemma gj_step_unit_cols:
  assumes st: "gj_step n j (A, N) = Some (A', N')" and j: "j < n"
    and unit: "\<forall>i<n. \<forall>k<j. A i k = (if i = k then 1 else 0)"
  shows "\<forall>i<n. \<forall>k<Suc j. A' i k = (if i = k then 1 else 0)"
proof -
  obtain p where p: "pivot_row n j A = Some p"
    using st by (auto simp: gj_step_def split: option.splits)
  have pp: "j \<le> p" "p < n" "A p j \<noteq> 0" using pivot_row_Some[OF p j] by auto
  define A1 where "A1 = swap_rows j p A"
  define A2 where "A2 = scale_row j (1 / A1 j j) A1"
  have A': "A' = eliminate_col j (\<lambda>r. A2 r j) A2"
    using st p by (simp add: gj_step_def Let_def A1_def A2_def)
  have u1: "\<forall>i<n. \<forall>k<j. A1 i k = (if i = k then 1 else 0)"
    using unit pp j by (auto simp: A1_def swap_rows_def)
  have piv: "A1 j j \<noteq> 0" using pp by (simp add: A1_def swap_rows_def)
  have u2: "\<forall>i<n. \<forall>k<j. A2 i k = (if i = k then 1 else 0)"
    using u1 j by (auto simp: A2_def scale_row_def)
  have one: "A2 j j = 1" using piv by (simp add: A2_def scale_row_def)
  show ?thesis
  proof (intro allI impI)
    fix i k assume i: "i < n" and k: "k < Suc j"
    show "A' i k = (if i = k then 1 else 0)"
    proof (cases "k = j")
      case True
      then show ?thesis using one by (simp add: A' eliminate_col_def)
    next
      case False
      then have kj: "k < j" using k by simp
      have "A2 j k = 0" using u2 j kj by simp
      then show ?thesis using u2 i kj by (simp add: A' eliminate_col_def)
    qed
  qed
qed

lemma gj_step_left_mult:
  assumes st: "gj_step n j (A, N) = Some (A', N')" and j: "j < n"
    and inv: "\<forall>i<n. \<forall>k<n. (\<Sum>l<n. N i l * A0 l k) = A i k"
  shows "\<forall>i<n. \<forall>k<n. (\<Sum>l<n. N' i l * A0 l k) = A' i k"
proof -
  obtain p where p: "pivot_row n j A = Some p"
    using st by (auto simp: gj_step_def split: option.splits)
  have pp: "j \<le> p" "p < n" using pivot_row_Some[OF p j] by auto
  define A1 where "A1 = swap_rows j p A"
  define N1 where "N1 = swap_rows j p N"
  define c where "c = 1 / A1 j j"
  define A2 where "A2 = scale_row j c A1"
  define N2 where "N2 = scale_row j c N1"
  have A': "A' = eliminate_col j (\<lambda>r. A2 r j) A2" and N': "N' = eliminate_col j (\<lambda>r. A2 r j) N2"
    using st p by (simp_all add: gj_step_def Let_def A1_def A2_def N1_def N2_def c_def)
  have i1: "\<forall>i<n. \<forall>k<n. (\<Sum>l<n. N1 i l * A0 l k) = A1 i k"
    using inv pp j by (auto simp: A1_def N1_def swap_rows_def)
  have i2: "\<forall>i<n. \<forall>k<n. (\<Sum>l<n. N2 i l * A0 l k) = A2 i k"
  proof (intro allI impI)
    fix i k assume ik: "i < n" "k < n"
    show "(\<Sum>l<n. N2 i l * A0 l k) = A2 i k"
    proof (cases "i = j")
      case True
      have "(\<Sum>l<n. N2 j l * A0 l k) = c * (\<Sum>l<n. N1 j l * A0 l k)"
        by (simp add: N2_def scale_row_def sum_distrib_left mult.assoc)
      then show ?thesis using True i1 ik by (simp add: A2_def scale_row_def)
    next
      case False
      then show ?thesis using i1 ik by (simp add: A2_def N2_def scale_row_def)
    qed
  qed
  show ?thesis
  proof (intro allI impI)
    fix i k assume ik: "i < n" "k < n"
    show "(\<Sum>l<n. N' i l * A0 l k) = A' i k"
    proof (cases "i = j")
      case True
      then show ?thesis using i2 ik by (simp add: A' N' eliminate_col_def)
    next
      case False
      have "(\<Sum>l<n. N' i l * A0 l k)
              = (\<Sum>l<n. N2 i l * A0 l k) - A2 i j * (\<Sum>l<n. N2 j l * A0 l k)"
        using False
        by (simp add: N' eliminate_col_def left_diff_distrib sum_subtractf sum_distrib_left mult.assoc)
      then show ?thesis using False i2 ik j by (simp add: A' eliminate_col_def)
    qed
  qed
qed

lemma gauss_jordan_sound:
  assumes "gauss_jordan n [j..<n] (A, N) = Some (A', N')" "j \<le> n"
    and "\<forall>i<n. \<forall>k<n. (\<Sum>l<n. N i l * A0 l k) = A i k"
    and "\<forall>i<n. \<forall>k<j. A i k = (if i = k then 1 else 0)"
  shows "\<forall>i<n. \<forall>k<n. (\<Sum>l<n. N' i l * A0 l k) = (if i = k then 1 else 0)"
  using assms
proof (induction "n - j" arbitrary: j A N)
  case 0
  then have "j = n" by simp
  with 0 show ?case by simp
next
  case (Suc d)
  then have jn: "j < n" by simp
  then have upt: "[j..<n] = j # [Suc j..<n]" by (simp add: upt_conv_Cons)
  obtain A1 N1 where st: "gj_step n j (A, N) = Some (A1, N1)"
    and rest: "gauss_jordan n [Suc j..<n] (A1, N1) = Some (A', N')"
    using Suc.prems(1) unfolding upt by (auto split: option.splits)
  have "d = n - Suc j" using Suc.hyps(2) by simp
  moreover have "Suc j \<le> n" using jn by simp
  moreover note rest gj_step_left_mult[OF st jn Suc.prems(3)] gj_step_unit_cols[OF st jn Suc.prems(4)]
  ultimately show ?case by (intro Suc.hyps(1)) auto
qed

lemma linalg_inv_left_inverse:
  assumes "linalg_inv n A = Some N"
  shows "\<forall>i<n. \<forall>k<n. (\<Sum>l<n. N i l * A l k) = (if i = k then 1 else 0)"
proof -
  obtain A' where gj: "gauss_jordan n [0..<n] (A, np_eye) = Some (A', N)"
    using assms by (auto simp: linalg_inv_def)
  have init: "\<forall>i<n. \<forall>k<n. (\<Sum>l<n. np_eye i l * A l k) = A i k"
    by (simp add: np_eye_def sum_delta_left)
  show ?thesis
    by (rule gauss_jordan_sound[OF gj _ init]) auto
qed

lemma gj_step_upper:
  assumes j: "j < n"
    and diag: "A j j = 1"
    and below: "\<forall>i. j < i \<and> i < n \<longrightarrow> A i j = 0"
  shows "\<exists>A' N'. gj_step n j (A, N) = Some (A', N') \<and> (\<forall>i. j < i \<and> i < n \<longrightarrow> A' i = A i)"
proof -
  have "fold (\<lambda>i b. if \<bar>A i j\<bar> > \<bar>A b j\<bar> then i else b) [Suc j..<n] j = j"
    using below by (intro fold_pick_all_zero) auto
  then have p: "pivot_row n j A = Some j"
    using diag by (simp add: pivot_row_def)
  have sw: "swap_rows j j A = A" by (auto simp: swap_rows_def)
  have sc: "scale_row j 1 A = A" by (auto simp: scale_row_def)
  have "gj_step n j (A, N) =
          Some (eliminate_col j (\<lambda>r. A r j) A,
                eliminate_col j (\<lambda>r. A r j) (scale_row j 1 (swap_rows j j N)))"
    using p diag by (simp add: gj_step_def Let_def sw sc)
  moreover have "\<forall>i. j < i \<and> i < n \<longrightarrow> eliminate_col j (\<lambda>r. A r j) A i = A i"
    using below by (auto simp: eliminate_col_def)
  ultimately show ?thesis by blast
qed

lemma gauss_jordan_upper:
  assumes "j \<le> n"
    and "\<forall>i. j \<le> i \<and> i < n \<longrightarrow> A i i = 1"
    and "\<forall>i k. j \<le> k \<and> k < i \<and> i < n \<longrightarrow> A i k = 0"
  shows "gauss_jordan n [j..<n] (A, N) \<noteq> None"
  using assms
proof (induction "n - j" arbitrary: j A N)
  case 0
  then have "j = n" by simp
  then show ?case by simp
next
  case (Suc d)
  then have jn: "j < n" by simp
  then have upt: "[j..<n] = j # [Suc j..<n]" by (simp add: upt_conv_Cons)
  have "A j j = 1" using Suc.prems(2) jn by simp
  moreover have "\<forall>i. j < i \<and> i < n \<longrightarrow> A i j = 0" using Suc.prems(3) by simp
  ultimately obtain A1 N1 where st: "gj_step n j (A, N) = Some (A1, N1)"
    and same: "\<forall>i. j < i \<and> i < n \<longrightarrow> A1 i = A i"
    using gj_step_upper[OF jn] by blast
  have "gauss_jordan n [Suc j..<n] (A1, N1) \<noteq> None"
  proof (rule Suc.hyps(1))
    show "d = n - Suc j" using Suc.hyps(2) by simp
    show "Suc j \<le> n" using jn by simp
    show "\<forall>i. Suc j \<le> i \<and> i < n \<longrightarrow> A1 i i = 1" using same Suc.prems(2) by simp
    show "\<forall>i k. Suc j \<le> k \<and> k < i \<and> i < n \<longrightarrow> A1 i k = 0" using same Suc.prems(3) by simp
  qed
  then show ?case unfolding upt using st by simp
qed

lemma linalg_inv_unit_upper:
  assumes "\<forall>i<n. A i i = 1" "\<forall>i<n. \<forall>k<i. A i k = 0"
  shows "\<exists>N. linalg_inv n A = Some N"
proof -
  have "gauss_jordan n [0..<n] (A, np_eye) \<noteq> None"
    using assms by (intro gauss_jordan_upper) auto
  then show ?thesis by (auto simp: linalg_inv_def)
qed

lemma det_unit_upper:
  assumes "\<forall>i<n. A i i = 1" "\<forall>i<n. \<forall>k<i. A i k = 0"
  shows "det n A = 1"
  using assms
proof (induction n arbitrary: A)
  case 0
  show ?case by simp
next
  case (Suc n)
  have zero: "\<And>i. i < n \<Longrightarrow> A (Suc i) 0 = 0" using Suc.prems(2) by simp
  have m: "det n (minor_mat 0 0 A) = 1"
    using Suc.prems by (intro Suc.IH) (auto simp: minor_mat_def)
  have "det (Suc n) A = A 0 0 * det n (minor_mat 0 0 A)
          + (\<Sum>i<n. (- 1) ^ Suc i * A (Suc i) 0 * det n (minor_mat (Suc i) 0 A))"
    by (simp add: sum.lessThan_Suc_shift del: sum.lessThan_Suc)
  also have "(\<Sum>i<n. (- 1) ^ Suc i * A (Suc i) 0 * det n (minor_mat (Suc i) 0 A)) = 0"
    using zero by (intro sum.neutral) simp
  finally show ?case using m Suc.prems(1) by simp
qed

subsection \<open>The power and its overflow\<close>

lemma float_max_ge_one: "1 \<le> float_max"
proof -
  have "(1::real) \<le> 2 ^ 1023" by (rule one_le_power) simp
  moreover have "(1::real) \<le> 2 - 1 / 2 ^ 52"
  proof -
    have "(1::real) / 2 ^ 52 \<le> 1" by (simp add: divide_le_eq)
    then show ?thesis by simp
  qed
  ultimately have "(1::real) * 1 \<le> (2 - 1 / 2 ^ 52) * 2 ^ 1023"
    by (intro mult_mono) auto
  then show ?thesis by (simp add: float_max_def)
qed

lemma py_pow_pos:
  assumes "0 < x"
  shows "py_pow x y = (if float_max < x powr y then Inl OverflowError else Inr (x powr y))"
  using assms by (simp add: py_pow_def)

lemma py_pow_le_one:
  assumes "0 < x" "x powr y \<le> 1"
  shows "py_pow x y = Inr (x powr y)"
  using assms float_max_ge_one by (simp add: py_pow_pos)

lemma py_pow_unit_interval:
  assumes "0 < x" "x \<le> 1" "0 \<le> y"
  shows "py_pow x y = Inr (x powr y)"
proof -
  have "x powr y \<le> 1" using assms by (intro powr_le1) auto
  then show ?thesis using assms(1) by (rule py_pow_le_one[rotated])
qed

lemma nonneg_power_no_overflow:
  assumes "0 \<le> alph"
  shows "\<not> power_overflows K alph"
proof
  assume "power_overflows K alph"
  then obtain k where k: "1 \<le> k" "k \<le> K"
    and o: "py_pow (1 - (real k - 1) / real K) alph = Inl OverflowError"
    by (auto simp: power_overflows_def)
  have K: "0 < real K" using k by simp
  have "(real k - 1) / real K < 1" using k K by (simp add: divide_simps)
  then have pos: "0 < 1 - (real k - 1) / real K" by simp
  have "0 \<le> (real k - 1) / real K" using k by simp
  then have le: "1 - (real k - 1) / real K \<le> 1" by simp
  show False using py_pow_unit_interval[OF pos le assms] o by simp
qed

lemma float_max_less: "float_max < 2 ^ 1024"
proof -
  have "(2 - 1 / 2 ^ 52) * (2::real) ^ 1023 < 2 * 2 ^ 1023"
    by (intro mult_strict_right_mono) auto
  then show ?thesis by (simp only: float_max_def power_Suc[symmetric]) simp
qed

lemma power_overflows_example: "power_overflows 48 (- 2000)"
proof -
  have f: "1 - (real (48::nat) - 1) / real (48::nat) = 1 / 48" by simp
  have "(1 / 48 :: real) powr (- 2000) = inverse ((1 / 48) powr 2000)"
    by (rule powr_minus)
  also have "((1 / 48 :: real) powr 2000) = (1 / 48) ^ 2000"
    by (rule powr_numeral) simp
  also have "inverse ((1 / 48 :: real) ^ 2000) = 48 ^ 2000"
    by (simp only: power_one_over inverse_eq_divide divide_divide_eq_right mult_1 div_by_1
        power_divide power_one) 
  finally have e: "(1 / 48 :: real) powr (- 2000) = 48 ^ 2000" .
  have "(2::real) ^ 1024 \<le> 2 ^ 2000" by (rule power_increasing) simp_all
  also have "(2::real) ^ 2000 \<le> 48 ^ 2000" by (rule power_mono) simp_all
  finally have "float_max < (1 / 48 :: real) powr (- 2000)"
    using float_max_less unfolding e by linarith
  then have "py_pow (1 / 48) (- 2000) = Inl OverflowError"
    by (simp only: py_pow_pos[of "1/48"] zero_less_divide_1_iff zero_less_numeral if_True)
  then have "py_pow (1 - (real (48::nat) - 1) / real (48::nat)) (- 2000) = Inl OverflowError"
    by (simp only: f)
  moreover have "(48::nat) \<in> {1..48}" by simp
  ultimately show ?thesis unfolding power_overflows_def by blast
qed

subsection \<open>The matrices of the chain\<close>

lemma bucket_freshness_range:
  assumes "1 \<le> k" "k \<le> K"
  shows "0 < 1 - (real k - 1) / real K" "1 - (real k - 1) / real K \<le> 1"
proof -
  have K: "0 < real K" using assms by simp
  have "(real k - 1) / real K < 1" using assms K by (simp add: divide_simps)
  then show "0 < 1 - (real k - 1) / real K" by simp
  have "0 \<le> (real k - 1) / real K" using assms by simp
  then show "1 - (real k - 1) / real K \<le> 1" by simp
qed

lemma calc_discount_pos_freshness:
  assumes "0 < f" "f \<le> 1" "py_pow f p \<noteq> Inl OverflowError"
  shows "calculate_discount_from_freshness f m p =
           Inr (max 0 (min (if m > 1 then m / 100 else m)
                         ((if m > 1 then m / 100 else m) * (1 - f powr p))))"
  using assms
  by (simp add: calculate_discount_from_freshness_def py_pow_pos Let_def split: if_splits)

lemma calc_discount_overflow:
  assumes "0 < f" "f \<le> 1" "py_pow f p = Inl OverflowError"
  shows "calculate_discount_from_freshness f m p = Inl OverflowError"
  using assms by (simp add: calculate_discount_from_freshness_def Let_def)

lemma bucket_discount_defined:
  assumes "1 \<le> k" "k \<le> K" "py_pow (1 - (real k - 1) / real K) alph \<noteq> Inl OverflowError"
  shows "\<exists>dk. calculate_discount_from_freshness (1 - (real k - 1) / real K) dmx alph = Inr dk"
  using calc_discount_pos_freshness[OF bucket_freshness_range[OF assms(1,2)] assms(3)] by blast

lemma markov_bucket_eq:
  assumes "1 \<le> k" "k \<le> K" "py_pow (1 - (real k - 1) / real K) alph \<noteq> Inl OverflowError"
  shows "markov_bucket db dmx alph K u pn cat k (Q, R) =
           Inr (if k < K
                then (mat_set Q (k - 1) k (1 - bucket_prob db dmx alph K u pn cat k),
                      mat_set R (k - 1) 0 (bucket_prob db dmx alph K u pn cat k))
                else (Q, mat_set (mat_set R (k - 1) 0 (bucket_prob db dmx alph K u pn cat k))
                           (k - 1) 1 (1 - bucket_prob db dmx alph K u pn cat k)))"
proof -
  obtain dk where "calculate_discount_from_freshness (1 - (real k - 1) / real K) dmx alph = Inr dk"
    using bucket_discount_defined[OF assms] by blast
  then show ?thesis by (simp add: markov_bucket_def bucket_prob_def Let_def)
qed

lemma markov_bucket_overflow:
  assumes "1 \<le> k" "k \<le> K" "py_pow (1 - (real k - 1) / real K) alph = Inl OverflowError"
  shows "markov_bucket db dmx alph K u pn cat k (Q, R) = Inl OverflowError"
  using calc_discount_overflow[OF bucket_freshness_range[OF assms(1,2)] assms(3), of dmx]
  by (simp add: markov_bucket_def Let_def)

lemma markov_loop_result:
  assumes "\<forall>k\<in>set ks. 1 \<le> k \<and> k \<le> K
             \<and> py_pow (1 - (real k - 1) / real K) alph \<noteq> Inl OverflowError"
  shows "\<exists>Q' R'. markov_loop db dmx alph K u pn cat ks (Q, R) = Inr (Q', R')
           \<and> (\<forall>i j. Q' i j = (if Suc i = j \<and> j < K \<and> j \<in> set ks
                                then 1 - bucket_prob db dmx alph K u pn cat j else Q i j))
           \<and> (\<forall>i. R' i 0 = (if Suc i \<in> set ks
                                then bucket_prob db dmx alph K u pn cat (Suc i) else R i 0))"
  using assms
proof (induction ks arbitrary: Q R)
  case Nil
  show ?case by simp
next
  case (Cons k ks)
  have k: "1 \<le> k" "k \<le> K" "py_pow (1 - (real k - 1) / real K) alph \<noteq> Inl OverflowError"
    using Cons.prems by auto
  let ?p = "bucket_prob db dmx alph K u pn cat"
  define Q1 where "Q1 = (if k < K then mat_set Q (k - 1) k (1 - ?p k) else Q)"
  define R1 where "R1 = (if k < K then mat_set R (k - 1) 0 (?p k)
                         else mat_set (mat_set R (k - 1) 0 (?p k)) (k - 1) 1 (1 - ?p k))"
  have b: "markov_bucket db dmx alph K u pn cat k (Q, R) = Inr (Q1, R1)"
    by (simp add: markov_bucket_eq[OF k] Q1_def R1_def)
  have "\<forall>k\<in>set ks. 1 \<le> k \<and> k \<le> K
          \<and> py_pow (1 - (real k - 1) / real K) alph \<noteq> Inl OverflowError"
    using Cons.prems by simp
  from Cons.IH[OF this, of Q1 R1] obtain Q' R' where
    l: "markov_loop db dmx alph K u pn cat ks (Q1, R1) = Inr (Q', R')"
    and q: "\<forall>i j. Q' i j = (if Suc i = j \<and> j < K \<and> j \<in> set ks then 1 - ?p j else Q1 i j)"
    and r: "\<forall>i. R' i 0 = (if Suc i \<in> set ks then ?p (Suc i) else R1 i 0)"
    by blast
  obtain k' where k': "k = Suc k'" using k(1) by (cases k) auto
  have q1: "Q1 i j = (if Suc i = j \<and> j < K \<and> j = k then 1 - ?p j else Q i j)" for i j
    unfolding Q1_def mat_set_def k' by (cases "i = k'"; cases "j = Suc k'"; simp)
  have r1: "R1 i 0 = (if Suc i = k then ?p (Suc i) else R i 0)" for i
    unfolding R1_def mat_set_def k' by (cases "i = k'"; simp)
  have "markov_loop db dmx alph K u pn cat (k # ks) (Q, R) = Inr (Q', R')"
    using b l by simp
  moreover have "\<forall>i j. Q' i j = (if Suc i = j \<and> j < K \<and> j \<in> set (k # ks) then 1 - ?p j else Q i j)"
    using q q1 by auto
  moreover have "\<forall>i. R' i 0 = (if Suc i \<in> set (k # ks) then ?p (Suc i) else R i 0)"
    using r r1 by auto
  ultimately show ?case by blast
qed

lemma markov_loop_overflow:
  assumes "\<forall>k\<in>set ks. 1 \<le> k \<and> k \<le> K"
    and "\<exists>k\<in>set ks. py_pow (1 - (real k - 1) / real K) alph = Inl OverflowError"
  shows "markov_loop db dmx alph K u pn cat ks QR = Inl OverflowError"
  using assms
proof (induction ks arbitrary: QR)
  case Nil
  then show ?case by simp
next
  case (Cons k ks)
  obtain Q R where QR: "QR = (Q, R)" by (cases QR)
  have k: "1 \<le> k" "k \<le> K" using Cons.prems(1) by auto
  show ?case
  proof (cases "py_pow (1 - (real k - 1) / real K) alph = Inl OverflowError")
    case True
    then show ?thesis using markov_bucket_overflow[OF k True] by (simp add: QR)
  next
    case False
    then have rest: "\<exists>k\<in>set ks. py_pow (1 - (real k - 1) / real K) alph = Inl OverflowError"
      using Cons.prems(2) by auto
    have "\<forall>k\<in>set ks. 1 \<le> k \<and> k \<le> K" using Cons.prems(1) by simp
    note ih = Cons.IH[OF this rest]
    obtain QR' where "markov_bucket db dmx alph K u pn cat k (Q, R) = Inr QR'"
      using markov_bucket_eq[OF k False] by blast
    then show ?thesis using ih by (simp add: QR)
  qed
qed

lemma markov_matrices:
  assumes "\<not> power_overflows n alph"
  shows "\<exists>Q R. markov_loop db dmx alph n u pn cat [1..<n + 1] (np_zeros, np_zeros) = Inr (Q, R)
     \<and> (\<forall>i j. Q i j = (if Suc i = j \<and> j < n then 1 - bucket_prob db dmx alph n u pn cat j else 0))
     \<and> (\<forall>i<n. R i 0 = bucket_prob db dmx alph n u pn cat (Suc i))"
proof -
  have "\<forall>k\<in>set [1..<n + 1]. 1 \<le> k \<and> k \<le> n
          \<and> py_pow (1 - (real k - 1) / real n) alph \<noteq> Inl OverflowError"
    using assms by (auto simp: power_overflows_def)
  from markov_loop_result[OF this, of db dmx u pn cat np_zeros np_zeros]
  obtain Q R where l: "markov_loop db dmx alph n u pn cat [1..<n + 1] (np_zeros, np_zeros) = Inr (Q, R)"
    and q: "\<forall>i j. Q i j = (if Suc i = j \<and> j < n \<and> j \<in> set [1..<n + 1]
                                then 1 - bucket_prob db dmx alph n u pn cat j else np_zeros i j)"
    and r: "\<forall>i. R i 0 = (if Suc i \<in> set [1..<n + 1]
                                then bucket_prob db dmx alph n u pn cat (Suc i) else np_zeros i 0)"
    by blast
  have "\<forall>i j. Q i j = (if Suc i = j \<and> j < n then 1 - bucket_prob db dmx alph n u pn cat j else 0)"
    using q by (auto simp: np_zeros_def)
  moreover have "\<forall>i<n. R i 0 = bucket_prob db dmx alph n u pn cat (Suc i)"
    using r by auto
  ultimately show ?thesis using l by blast
qed

lemma markov_loop_overflows:
  assumes "power_overflows n alph"
  shows "markov_loop db dmx alph n u pn cat [1..<n + 1] QR = Inl OverflowError"
proof (rule markov_loop_overflow)
  show "\<forall>k\<in>set [1..<n + 1]. 1 \<le> k \<and> k \<le> n" by auto
  show "\<exists>k\<in>set [1..<n + 1]. py_pow (1 - (real k - 1) / real n) alph = Inl OverflowError"
    using assms by (auto simp: power_overflows_def)
qed

subsection \<open>The closed form of the absorption probability\<close>

lemma survival_system_row:
  fixes q :: "nat \<Rightarrow> real"
  assumes l: "l < n"
    and Q: "\<forall>i j. Q i j = (if Suc i = j \<and> j < n then q j else 0)"
  shows "(\<Sum>k<n. mat_sub np_eye Q l k * (1 - prod q {Suc k..n})) = 1 - q (Suc l)"
proof -
  let ?c = "\<lambda>k. 1 - prod q {Suc k..n}"
  have split: "(\<Sum>k<n. mat_sub np_eye Q l k * ?c k)
                 = (\<Sum>k<n. (if l = k then 1 else 0) * ?c k) - (\<Sum>k<n. Q l k * ?c k)"
    by (simp add: mat_sub_def np_eye_def left_diff_distrib sum_subtractf)
  have d: "(\<Sum>k<n. (if l = k then 1 else 0) * ?c k) = ?c l"
    using l by (rule sum_delta_left)
  have cl: "?c l = 1 - q (Suc l) * prod q {Suc (Suc l)..n}"
    using l by (simp add: prod.atLeast_Suc_atMost)
  show ?thesis
  proof (cases "Suc l < n")
    case True
    have "(\<Sum>k<n. Q l k * ?c k) = (\<Sum>k\<in>{..<n}. if k = Suc l then q (Suc l) * ?c (Suc l) else 0)"
      using Q True by (intro sum.cong) auto
    also have "\<dots> = q (Suc l) * ?c (Suc l)" using True by (simp add: sum.delta)
    finally show ?thesis using split d cl by (simp add: algebra_simps)
  next
    case False
    then have ln: "Suc l = n" using l by simp
    have "(\<Sum>k<n. Q l k * ?c k) = 0"
      using Q ln by (intro sum.neutral) auto
    moreover have "prod q {Suc (Suc l)..n} = 1" using ln by simp
    ultimately show ?thesis using split d cl by simp
  qed
qed

lemma absorption_column:
  fixes c :: "nat \<Rightarrow> real"
  assumes left: "\<forall>i<n. \<forall>k<n. (\<Sum>l<n. N i l * A l k) = (if i = k then 1 else 0)"
    and sys: "\<forall>l<n. (\<Sum>k<n. A l k * c k) = R l 0"
    and i: "i < n"
  shows "matmul n N R i 0 = c i"
proof -
  have "matmul n N R i 0 = (\<Sum>l<n. N i l * (\<Sum>k<n. A l k * c k))"
    using sys by (simp add: matmul_def)
  also have "\<dots> = (\<Sum>l<n. \<Sum>k<n. N i l * A l k * c k)"
    by (simp add: sum_distrib_left mult.assoc)
  also have "\<dots> = (\<Sum>k<n. \<Sum>l<n. N i l * A l k * c k)"
    by (rule sum.swap)
  also have "\<dots> = (\<Sum>k<n. (\<Sum>l<n. N i l * A l k) * c k)"
    by (simp add: sum_distrib_right)
  also have "\<dots> = (\<Sum>k<n. (if i = k then 1 else 0) * c k)"
    using left i by simp
  also have "\<dots> = c i" using i by (rule sum_delta_left)
  finally show ?thesis .
qed

lemma start_bucket_range:
  assumes "1 \<le> K"
  shows "1 \<le> min (py_int ((1 - max 0 (min 1 f)) * real_of_int K) + 1) K"
    and "py_int ((1 - max 0 (min 1 f)) * real_of_int K) = \<lfloor>(1 - max 0 (min 1 f)) * real_of_int K\<rfloor>"
proof -
  have nn: "0 \<le> (1 - max 0 (min 1 f)) * real_of_int K" using assms by simp
  then show e: "py_int ((1 - max 0 (min 1 f)) * real_of_int K) = \<lfloor>(1 - max 0 (min 1 f)) * real_of_int K\<rfloor>"
    by (simp add: py_int_def)
  have "0 \<le> \<lfloor>(1 - max 0 (min 1 f)) * real_of_int K\<rfloor>" using nn by simp
  then show "1 \<le> min (py_int ((1 - max 0 (min 1 f)) * real_of_int K) + 1) K"
    using assms e by simp
qed

lemma sold_prob_markov_with_closed_form:
  assumes K: "1 \<le> K"
    and no: "\<not> power_overflows (nat K) alph"
    and solver: "\<And>A. solver (nat K) A = linalg_inv (nat K) A"
  shows "sold_prob_markov_with solver db f dmx alph K dt u pn cat =
           Inr (1 - (\<Prod>k\<in>{nat (min (\<lfloor>(1 - max 0 (min 1 f)) * real_of_int K\<rfloor> + 1) K)..nat K}.
                       1 - bucket_prob db dmx alph (nat K) u pn cat k))"
proof -
  define n where "n = nat K"
  define q where "q = (\<lambda>k. 1 - bucket_prob db dmx alph n u pn cat k)"
  define k0 where "k0 = min (py_int ((1 - max 0 (min 1 f)) * real_of_int K) + 1) K"
  have n: "1 \<le> n" "int n = K" using K by (auto simp: n_def)
  obtain Q R where loop: "markov_loop db dmx alph n u pn cat [1..<n + 1] (np_zeros, np_zeros) = Inr (Q, R)"
    and Q: "\<forall>i j. Q i j = (if Suc i = j \<and> j < n then q j else 0)"
    and R: "\<forall>i<n. R i 0 = 1 - q (Suc i)"
    using markov_matrices[of n alph db dmx u pn cat] no unfolding q_def n_def by auto
  define A where "A = mat_sub np_eye Q"
  have "\<forall>i<n. A i i = 1" "\<forall>i<n. \<forall>k<i. A i k = 0"
    using Q by (auto simp: A_def mat_sub_def np_eye_def)
  then obtain N where N: "linalg_inv n A = Some N"
    using linalg_inv_unit_upper by blast
  have left: "\<forall>i<n. \<forall>k<n. (\<Sum>l<n. N i l * A l k) = (if i = k then 1 else 0)"
    by (rule linalg_inv_left_inverse[OF N])
  have sys: "\<forall>l<n. (\<Sum>k<n. A l k * (1 - prod q {Suc k..n})) = R l 0"
    using survival_system_row[OF _ Q] R unfolding A_def by simp
  have k0: "1 \<le> k0" "k0 \<le> K" using start_bucket_range(1)[OF K, of f] by (auto simp: k0_def)
  then have idx: "py_index (k0 - 1) n = Inr (nat (k0 - 1))" "nat (k0 - 1) < n"
    using n by (auto simp: py_index_def)
  have B: "matmul n N R (nat (k0 - 1)) 0 = 1 - prod q {Suc (nat (k0 - 1))..n}"
    using absorption_column[of n N A "\<lambda>k. 1 - prod q {Suc k..n}" R "nat (k0 - 1)"] left sys idx(2)
    by simp
  have suc: "Suc (nat (k0 - 1)) = nat k0" using k0 by simp
  have "sold_prob_markov_with solver db f dmx alph K dt u pn cat
          = mat_get (matmul n N R) n 2 (k0 - 1) 0"
    using K loop N solver[of A]
    by (simp add: sold_prob_markov_with_def Let_def n_def[symmetric] k0_def[symmetric] A_def[symmetric])
  also have "\<dots> = Inr (1 - prod q {nat k0..n})"
    using idx B suc by (simp add: mat_get_def py_index_def)
  finally show ?thesis
    unfolding q_def k0_def n_def start_bucket_range(2)[OF K] .
qed

lemma sold_prob_markov_closed_form:
  assumes K: "1 \<le> K" and no: "\<not> power_overflows (nat K) alph"
  shows "sold_prob_markov db f dmx alph K dt u pn cat =
           Inr (1 - (\<Prod>k\<in>{nat (min (\<lfloor>(1 - max 0 (min 1 f)) * real_of_int K\<rfloor> + 1) K)..nat K}.
                       1 - bucket_prob db dmx alph (nat K) u pn cat k))"
  unfolding sold_prob_markov_def by (rule sold_prob_markov_with_closed_form[OF K no]) simp

lemma sold_prob_markov_overflow:
  assumes "power_overflows (nat K) alph"
  shows "sold_prob_markov db f dmx alph K dt u pn cat = Inl OverflowError"
proof -
  have "0 \<le> K"
  proof (rule ccontr)
    assume "\<not> 0 \<le> K"
    then have "nat K = 0" by simp
    then show False using assms by (simp add: power_overflows_def)
  qed
  then show ?thesis
    using markov_loop_overflows[OF assms, of db dmx u pn cat "(np_zeros, np_zeros)"]
    by (simp add: sold_prob_markov_def sold_prob_markov_with_def Let_def)
qed

lemma markov_loop_Inr_no_overflow:
  assumes "markov_loop db dmx alph n u pn cat [1..<n + 1] QR = Inr QR'"
  shows "\<not> power_overflows n alph"
  using markov_loop_overflows[of n alph db dmx u pn cat QR] assms by auto

lemma loop_matrix_structure:
  assumes "markov_loop db dmx alph n u pn cat [1..<n + 1] (np_zeros, np_zeros) = Inr (Q, R)"
  shows "\<forall>i j. Q i j = (if Suc i = j \<and> j < n then 1 - bucket_prob db dmx alph n u pn cat j else 0)"
  using markov_matrices[OF markov_loop_Inr_no_overflow[OF assms], of db dmx u pn cat] assms
  by auto

lemma loop_matrix_invertible:
  assumes "markov_loop db dmx alph n u pn cat [1..<n + 1] (np_zeros, np_zeros) = Inr (Q, R)"
  shows "\<exists>N. linalg_inv n (mat_sub np_eye Q) = Some N"
proof -
  note Q = loop_matrix_structure[OF assms]
  have "\<forall>i<n. mat_sub np_eye Q i i = 1" "\<forall>i<n. \<forall>j<i. mat_sub np_eye Q i j = 0"
    using Q by (auto simp: mat_sub_def np_eye_def)
  then show ?thesis by (rule linalg_inv_unit_upper)
qed

section \<open>The claims\<close>

lemma calc_discount_pos_power:
  assumes "0 \<le> f" "f \<le> 1" "0 < p"
  shows "calculate_discount_from_freshness f m p =
           Inr (max 0 (min (if m > 1 then m / 100 else m)
                         ((if m > 1 then m / 100 else m) * (1 - f powr p))))"
proof (cases "f = 0")
  case True
  then show ?thesis using assms
    by (simp add: calculate_discount_from_freshness_def py_pow_def Let_def)
next
  case False
  then have pos: "0 < f" using assms by simp
  have "py_pow f p = Inr (f powr p)"
    using py_pow_unit_interval[OF pos assms(2)] assms(3) by simp
  then have "py_pow f p \<noteq> Inl OverflowError" by simp
  then show ?thesis by (rule calc_discount_pos_freshness[OF pos assms(2)])
qed

text \<open>
  C7. For a freshness in \<open>[0, 1]\<close>, a maximum discount \<open>m > 0\<close> and a power \<open>p > 0\<close>, the
  discount is defined, does not increase when the freshness increases, and lies in
  \<open>[0, m]\<close>.
\<close>

theorem discount_nonincreasing_in_range:
  assumes "0 \<le> f1" "f1 \<le> f2" "f2 \<le> 1" "0 < m" "0 < p"
  shows "\<exists>d1 d2. calculate_discount_from_freshness f1 m p = Inr d1
           \<and> calculate_discount_from_freshness f2 m p = Inr d2
           \<and> d2 \<le> d1 \<and> 0 \<le> d2 \<and> d1 \<le> m"
proof -
  define m' where "m' = (if m > 1 then m / 100 else m)"
  have m': "0 < m'" "m' \<le> m" using assms by (auto simp: m'_def)
  have pw: "f1 powr p \<le> f2 powr p"
    using assms by (intro powr_mono2) auto
  have e1: "calculate_discount_from_freshness f1 m p = Inr (max 0 (min m' (m' * (1 - f1 powr p))))"
    unfolding m'_def using assms by (intro calc_discount_pos_power) auto
  have e2: "calculate_discount_from_freshness f2 m p = Inr (max 0 (min m' (m' * (1 - f2 powr p))))"
    unfolding m'_def using assms by (intro calc_discount_pos_power) auto
  have "m' * (1 - f2 powr p) \<le> m' * (1 - f1 powr p)"
    using pw m' by (intro mult_left_mono) auto
  then have mono: "max 0 (min m' (m' * (1 - f2 powr p))) \<le> max 0 (min m' (m' * (1 - f1 powr p)))"
    by auto
  have "min m' (m' * (1 - f1 powr p)) \<le> m'" by simp
  then have ub: "max 0 (min m' (m' * (1 - f1 powr p))) \<le> m" using m' by linarith
  show ?thesis using e1 e2 mono ub by auto
qed

theorem discount_nonincreasing_in_range_witness:
  "\<exists>d1 d2. calculate_discount_from_freshness (1/4) (3/4) 2 = Inr d1
     \<and> calculate_discount_from_freshness (1/2) (3/4) 2 = Inr d2
     \<and> d2 \<le> d1 \<and> 0 \<le> d2 \<and> d1 \<le> 3/4"
  using discount_nonincreasing_in_range [of "1/4" "1/2" "3/4" 2] by simp

text \<open>
  C5. With \<open>(p_user, n)\<close> the result of \<^verbatim>\<open>p_buy_user_beta\<close>, where \<open>n\<close> is the sum of the
  trials of the user's rows for the product whose bin contains the discount: the blend is
  the population probability when \<open>n = 0\<close>, and \<open>w * p_user + (1 - w) * p_pop\<close> with
  \<open>w = n / (n + m)\<close> when \<open>n > 0\<close>.
\<close>

theorem p_buy_blend_credibility:
  "(snd (p_buy_user_beta db u pn d) = 0 \<longrightarrow>
      p_buy_blend db u pn cat d m = p_buy_pop_interp db d cat)
   \<and> (0 < snd (p_buy_user_beta db u pn d) \<longrightarrow>
      p_buy_blend db u pn cat d m =
        real (snd (p_buy_user_beta db u pn d)) / (real (snd (p_buy_user_beta db u pn d)) + real m)
          * fst (p_buy_user_beta db u pn d)
        + (1 - real (snd (p_buy_user_beta db u pn d))
                 / (real (snd (p_buy_user_beta db u pn d)) + real m))
          * p_buy_pop_interp db d cat)
   \<and> (models_available db \<longrightarrow>
      snd (p_buy_user_beta db u pn d) =
        sum_list (map trials
          (filter (\<lambda>r. bin_low r \<le> d \<and> d < bin_high r)
             (filter (\<lambda>r. stat_user_id r = u \<and> stat_product_name r = pn)
                (user_discount_stats db)))))"
  by (auto simp: p_buy_blend_def p_buy_user_beta_def Let_def split: prod.splits)

theorem p_buy_blend_credibility_witness:
  "snd (p_buy_user_beta loyal_db 1 ''apple'' 50) = 0
   \<and> p_buy_blend loyal_db 1 ''apple'' ''apple'' 50 15 = p_buy_pop_interp loyal_db 50 ''apple''
   \<and> snd (p_buy_user_beta loyal_db 1 ''apple'' 5) = 100
   \<and> p_buy_blend loyal_db 1 ''apple'' ''apple'' 5 15 =
        100 / (100 + 15) * (101 / 102) + (1 - 100 / (100 + 15)) * p_buy_pop_interp loyal_db 5 ''apple''"
proof -
  have n0: "snd (p_buy_user_beta loyal_db 1 ''apple'' 50) = 0"
    by (simp add: p_buy_user_beta_def loyal_db_def)
  have n1: "p_buy_user_beta loyal_db 1 ''apple'' 5 = (101 / 102, 100)"
    by (simp add: p_buy_user_beta_def loyal_db_def)
  show ?thesis
    using p_buy_blend_credibility [of loyal_db 1 "''apple''" 50 "''apple''" 15]
      p_buy_blend_credibility [of loyal_db 1 "''apple''" 5 "''apple''" 15] n0 n1
    by simp
qed

text \<open>
  C1, as the code has it. When the models are available and the category has a stored
  curve whose control points are malformed (an empty sequence, or sequences of different
  lengths), the population probability is the constant 0.05 at every discount; it
  equals the linear approximation \<open>min 0.9 (0.05 + 0.85 * d / 100)\<close> at the discount 0
  and at no other discount.
\<close>

theorem malformed_curve_constant:
  assumes "models_available db"
    and "find (\<lambda>c. category c = cat) (price_curves db) = Some curve"
    and "x_discount_bins curve = [] \<or> y_pbuy curve = []
         \<or> length (x_discount_bins curve) \<noteq> length (y_pbuy curve)"
  shows "p_buy_pop_interp db d cat = 0.05
         \<and> (p_buy_pop_interp db d cat = min 0.9 (0.05 + (d / 100) * 0.85) \<longleftrightarrow> d = 0)"
proof -
  have c: "p_buy_pop_interp db d cat = 0.05"
    using assms by (auto simp: p_buy_pop_interp_def Let_def)
  have e: "((0.05::real) = min 0.9 (0.05 + (d / 100) * 0.85)) \<longleftrightarrow> d = 0"
    by (auto simp: min_def)
  show ?thesis unfolding c by (rule conjI, rule refl, rule e)
qed

theorem malformed_curve_constant_witness:
  "p_buy_pop_interp malformed_db 50 ''apple'' = 0.05
   \<and> p_buy_pop_interp malformed_db 0 ''apple'' = min 0.9 (0.05 + (0 / 100) * 0.85)"
  using malformed_curve_constant
    [of malformed_db "''apple''" "\<lparr>category = ''apple'', x_discount_bins = [], y_pbuy = []\<rparr>" 50]
    malformed_curve_constant
    [of malformed_db "''apple''" "\<lparr>category = ''apple'', x_discount_bins = [], y_pbuy = []\<rparr>" 0]
  by (simp add: malformed_db_def)

theorem malformed_curve_not_linear:
  "p_buy_pop_interp malformed_db 50 ''apple'' \<noteq> min 0.9 (0.05 + 0.85 * 50 / 100)"
  by (simp add: p_buy_pop_interp_def malformed_db_def)

text \<open>
  C2, as the code has it. A non-positive bucket count does not give probability 0. For
  \<open>K = 0\<close> the loop leaves \<open>Q\<close> and \<open>R\<close> empty, the inversion of the empty matrix
  succeeds, and the read \<^verbatim>\<open>B[k0 - 1, 0]\<close> raises IndexError; for \<open>K < 0\<close> the allocation of
  \<open>Q\<close> raises ValueError. For no \<open>K \<ge> 0\<close> is a matrix that the loop builds singular, so
  the branch that returns 0 is not taken.
\<close>

theorem nonpositive_buckets_raise:
  "(K < 0 \<longrightarrow> sold_prob_markov db f dmx alph K dt u pn cat = Inl ValueError)
   \<and> (K = 0 \<longrightarrow>
        markov_loop db dmx alph 0 u pn cat [1..<0 + 1] (np_zeros, np_zeros)
          = Inr (np_zeros, np_zeros)
        \<and> sold_prob_markov db f dmx alph K dt u pn cat = Inl IndexError)
   \<and> (0 \<le> K \<longrightarrow>
        (\<forall>Q R. markov_loop db dmx alph (nat K) u pn cat [1..<nat K + 1] (np_zeros, np_zeros)
                  = Inr (Q, R)
               \<longrightarrow> (\<exists>N. linalg_inv (nat K) (mat_sub np_eye Q) = Some N)))"
proof (intro conjI impI allI)
  assume "K < 0"
  then show "sold_prob_markov db f dmx alph K dt u pn cat = Inl ValueError"
    by (simp add: sold_prob_markov_def sold_prob_markov_with_def)
next
  show "markov_loop db dmx alph 0 u pn cat [1..<0 + 1] (np_zeros, np_zeros)
          = Inr (np_zeros, np_zeros)"
    by simp
next
  assume "K = 0"
  then show "sold_prob_markov db f dmx alph K dt u pn cat = Inl IndexError"
    by (simp add: sold_prob_markov_def sold_prob_markov_with_def py_int_def linalg_inv_def
        mat_get_def py_index_def)
next
  fix Q R
  assume "markov_loop db dmx alph (nat K) u pn cat [1..<nat K + 1] (np_zeros, np_zeros)
            = Inr (Q, R)"
  then show "\<exists>N. linalg_inv (nat K) (mat_sub np_eye Q) = Some N"
    by (rule loop_matrix_invertible)
qed

theorem nonpositive_buckets_raise_witness:
  "sold_prob_markov seeded_db (1/2) (3/4) (3/2) (- 1) 1 1 ''apple'' ''apple'' = Inl ValueError
   \<and> sold_prob_markov seeded_db (1/2) (3/4) (3/2) 0 1 1 ''apple'' ''apple'' = Inl IndexError
   \<and> (\<exists>N. linalg_inv 0 (mat_sub np_eye np_zeros) = Some N)"
proof -
  note neg = nonpositive_buckets_raise
    [of "- 1" seeded_db "1/2" "3/4" "3/2" 1 1 "''apple''" "''apple''"]
  note zero = nonpositive_buckets_raise
    [of 0 seeded_db "1/2" "3/4" "3/2" 1 1 "''apple''" "''apple''"]
  have a: "sold_prob_markov seeded_db (1/2) (3/4) (3/2) (- 1) 1 1 ''apple'' ''apple'' = Inl ValueError"
    using neg by simp
  have b: "markov_loop seeded_db (3/4) (3/2) 0 1 ''apple'' ''apple'' [1..<0 + 1] (np_zeros, np_zeros)
             = Inr (np_zeros, np_zeros)"
    and c: "sold_prob_markov seeded_db (1/2) (3/4) (3/2) 0 1 1 ''apple'' ''apple'' = Inl IndexError"
    using zero by simp_all
  have "\<forall>Q R. markov_loop seeded_db (3/4) (3/2) (nat 0) 1 ''apple'' ''apple'' [1..<nat 0 + 1]
                 (np_zeros, np_zeros) = Inr (Q, R)
               \<longrightarrow> (\<exists>N. linalg_inv (nat 0) (mat_sub np_eye Q) = Some N)"
    using zero by simp
  then have d: "\<exists>N. linalg_inv 0 (mat_sub np_eye np_zeros) = Some N"
    using b by simp
  show ?thesis using a c d by (intro conjI)
qed

theorem zero_buckets_index_error:
  "sold_prob_markov loyal_db 1 (3/4) 1 0 1 1 ''apple'' ''apple'' = Inl IndexError
   \<and> sold_prob_markov loyal_db 1 (3/4) 1 0 1 1 ''apple'' ''apple'' \<noteq> Inr 0"
  by (simp add: sold_prob_markov_def sold_prob_markov_with_def py_int_def linalg_inv_def
      mat_get_def py_index_def)

text \<open>
  C9. For \<open>K \<ge> 1\<close>, in exact arithmetic (no power of the loop overflows, as for every
  \<open>alpha \<ge> 0\<close>), the loop builds a matrix \<open>Q\<close> whose only entries are \<open>1 - p\<^sub>k\<close> on the
  superdiagonal, so \<open>I - Q\<close> is unit upper triangular, its determinant is 1, and the
  solver returns an inverse: the branch for a singular matrix is never taken. When a
  power overflows the loop raises OverflowError and no matrix reaches the solver.
\<close>

theorem transient_matrix_invertible:
  assumes "1 \<le> K"
  shows "(\<not> power_overflows (nat K) alph \<longrightarrow>
          (\<exists>Q R. markov_loop db dmx alph (nat K) u pn cat [1..<nat K + 1] (np_zeros, np_zeros)
                  = Inr (Q, R)
           \<and> (\<forall>i<nat K. \<forall>j<nat K.
                 Q i j = (if j = Suc i then 1 - bucket_prob db dmx alph (nat K) u pn cat j else 0))
           \<and> (\<forall>i<nat K. mat_sub np_eye Q i i = 1)
           \<and> (\<forall>i<nat K. \<forall>j<i. mat_sub np_eye Q i j = 0)
           \<and> det (nat K) (mat_sub np_eye Q) = 1
           \<and> (\<exists>N. linalg_inv (nat K) (mat_sub np_eye Q) = Some N
                 \<and> (\<forall>i<nat K. \<forall>k<nat K.
                       (\<Sum>l<nat K. N i l * mat_sub np_eye Q l k) = (if i = k then 1 else 0)))))
         \<and> (power_overflows (nat K) alph \<longrightarrow>
              markov_loop db dmx alph (nat K) u pn cat [1..<nat K + 1] (np_zeros, np_zeros)
                = Inl OverflowError)
         \<and> (0 \<le> alph \<longrightarrow> \<not> power_overflows (nat K) alph)"
proof (intro conjI impI)
  assume no: "\<not> power_overflows (nat K) alph"
  define n where "n = nat K"
  obtain Q R where
    l: "markov_loop db dmx alph n u pn cat [1..<n + 1] (np_zeros, np_zeros) = Inr (Q, R)"
    and Q: "\<forall>i j. Q i j = (if Suc i = j \<and> j < n then 1 - bucket_prob db dmx alph n u pn cat j else 0)"
    using markov_matrices[of n alph db dmx u pn cat] no unfolding n_def by blast
  have q: "\<forall>i<n. \<forall>j<n. Q i j = (if j = Suc i then 1 - bucket_prob db dmx alph n u pn cat j else 0)"
    using Q by auto
  have d: "\<forall>i<n. mat_sub np_eye Q i i = 1" and z: "\<forall>i<n. \<forall>j<i. mat_sub np_eye Q i j = 0"
    using Q by (auto simp: mat_sub_def np_eye_def)
  have dt: "det n (mat_sub np_eye Q) = 1" by (rule det_unit_upper[OF d z])
  obtain N where N: "linalg_inv n (mat_sub np_eye Q) = Some N"
    using linalg_inv_unit_upper[OF d z] by blast
  note li = linalg_inv_left_inverse[OF N]
  show "\<exists>Q R. markov_loop db dmx alph (nat K) u pn cat [1..<nat K + 1] (np_zeros, np_zeros)
                  = Inr (Q, R)
           \<and> (\<forall>i<nat K. \<forall>j<nat K.
                 Q i j = (if j = Suc i then 1 - bucket_prob db dmx alph (nat K) u pn cat j else 0))
           \<and> (\<forall>i<nat K. mat_sub np_eye Q i i = 1)
           \<and> (\<forall>i<nat K. \<forall>j<i. mat_sub np_eye Q i j = 0)
           \<and> det (nat K) (mat_sub np_eye Q) = 1
           \<and> (\<exists>N. linalg_inv (nat K) (mat_sub np_eye Q) = Some N
                 \<and> (\<forall>i<nat K. \<forall>k<nat K.
                       (\<Sum>l<nat K. N i l * mat_sub np_eye Q l k) = (if i = k then 1 else 0)))"
    unfolding n_def[symmetric] using l q d z dt N li by blast
next
  assume "power_overflows (nat K) alph"
  then show "markov_loop db dmx alph (nat K) u pn cat [1..<nat K + 1] (np_zeros, np_zeros)
                = Inl OverflowError"
    by (rule markov_loop_overflows)
next
  assume "0 \<le> alph"
  then show "\<not> power_overflows (nat K) alph" by (rule nonneg_power_no_overflow)
qed

theorem transient_matrix_invertible_witness:
  "(\<exists>Q R. markov_loop loyal_db (3/4) 1 2 1 ''apple'' ''apple'' [1..<3] (np_zeros, np_zeros) = Inr (Q, R)
      \<and> det 2 (mat_sub np_eye Q) = 1
      \<and> linalg_inv 2 (mat_sub np_eye Q) \<noteq> None)
   \<and> markov_loop loyal_db (3/4) (- 2000) 48 1 ''apple'' ''apple'' [1..<49] (np_zeros, np_zeros)
       = Inl OverflowError"
proof -
  have k: "(1::int) \<le> 2" by simp
  have n: "nat 2 = 2" "nat 2 + 1 = 3" by simp_all
  have no: "\<not> power_overflows 2 1" by (rule nonneg_power_no_overflow) simp
  note t = transient_matrix_invertible [OF k, of 1 loyal_db "3/4" 1 "''apple''" "''apple''"]
  from t no have a: "\<exists>Q R. markov_loop loyal_db (3/4) 1 2 1 ''apple'' ''apple'' [1..<3]
        (np_zeros, np_zeros) = Inr (Q, R)
      \<and> det 2 (mat_sub np_eye Q) = 1
      \<and> linalg_inv 2 (mat_sub np_eye Q) \<noteq> None"
    unfolding n by fastforce
  have k': "(1::int) \<le> 48" by simp
  have n': "nat 48 = 48" "(48::nat) + 1 = 49" by simp_all
  note t' = transient_matrix_invertible [OF k', of "- 2000" loyal_db "3/4" 1 "''apple''" "''apple''"]
  have b: "markov_loop loyal_db (3/4) (- 2000) 48 1 ''apple'' ''apple'' [1..<49] (np_zeros, np_zeros)
       = Inl OverflowError"
    using t' [THEN conjunct2, THEN conjunct1] power_overflows_example unfolding n' by blast
  show ?thesis using a b by (rule conjI)
qed

text \<open>
  C10. For \<open>K \<ge> 1\<close>, in exact arithmetic (no power of the loop overflows, as for every
  \<open>alpha \<ge> 0\<close>), every bucket's discount is defined and the result is
  \<open>1 - \<Prod>k = k0..K. (1 - p\<^sub>k)\<close> with \<open>k0 = min K (\<lfloor>(1 - clamp freshness) * K\<rfloor> + 1)\<close>.
  When a power overflows the call raises OverflowError.
\<close>

theorem sold_prob_markov_survival_product:
  assumes "1 \<le> K"
  shows "(\<not> power_overflows (nat K) alph \<longrightarrow>
          (\<forall>k\<in>{1..nat K}. \<exists>dk.
            calculate_discount_from_freshness (1 - (real k - 1) / real (nat K)) dmx alph = Inr dk
            \<and> bucket_prob db dmx alph (nat K) u pn cat k = p_buy_blend db u pn cat (dk * 100) 15)
          \<and> sold_prob_markov db f dmx alph K dt u pn cat =
             Inr (1 - (\<Prod>k\<in>{nat (min K (\<lfloor>(1 - max 0 (min 1 f)) * real_of_int K\<rfloor> + 1))..nat K}.
                         1 - bucket_prob db dmx alph (nat K) u pn cat k)))
         \<and> (power_overflows (nat K) alph \<longrightarrow>
              sold_prob_markov db f dmx alph K dt u pn cat = Inl OverflowError)
         \<and> (0 \<le> alph \<longrightarrow> \<not> power_overflows (nat K) alph)"
proof (intro conjI impI)
  assume no: "\<not> power_overflows (nat K) alph"
  show "\<forall>k\<in>{1..nat K}. \<exists>dk.
            calculate_discount_from_freshness (1 - (real k - 1) / real (nat K)) dmx alph = Inr dk
            \<and> bucket_prob db dmx alph (nat K) u pn cat k = p_buy_blend db u pn cat (dk * 100) 15"
  proof
    fix k assume "k \<in> {1..nat K}"
    then have k: "1 \<le> k" "k \<le> nat K" by auto
    have "py_pow (1 - (real k - 1) / real (nat K)) alph \<noteq> Inl OverflowError"
      using no k by (auto simp: power_overflows_def)
    from bucket_discount_defined[OF k this, of dmx] obtain dk where
      "calculate_discount_from_freshness (1 - (real k - 1) / real (nat K)) dmx alph = Inr dk"
      by blast
    then show "\<exists>dk.
            calculate_discount_from_freshness (1 - (real k - 1) / real (nat K)) dmx alph = Inr dk
            \<and> bucket_prob db dmx alph (nat K) u pn cat k = p_buy_blend db u pn cat (dk * 100) 15"
      by (simp add: bucket_prob_def)
  qed
  show "sold_prob_markov db f dmx alph K dt u pn cat =
             Inr (1 - (\<Prod>k\<in>{nat (min K (\<lfloor>(1 - max 0 (min 1 f)) * real_of_int K\<rfloor> + 1))..nat K}.
                         1 - bucket_prob db dmx alph (nat K) u pn cat k))"
    using sold_prob_markov_closed_form[OF assms no, of db f dmx dt u pn cat]
    by (simp add: min.commute)
next
  assume "power_overflows (nat K) alph"
  then show "sold_prob_markov db f dmx alph K dt u pn cat = Inl OverflowError"
    by (rule sold_prob_markov_overflow)
next
  assume "0 \<le> alph"
  then show "\<not> power_overflows (nat K) alph" by (rule nonneg_power_no_overflow)
qed

lemma calc_discount_power_one:
  assumes "0 < f" "f \<le> 1"
  shows "calculate_discount_from_freshness f m 1 =
           Inr (max 0 (min (if m > 1 then m / 100 else m)
                         ((if m > 1 then m / 100 else m) * (1 - f))))"
  using calc_discount_pos_power[of f 1 m] assms by simp

theorem sold_prob_markov_survival_product_witness:
  "sold_prob_markov loyal_db 1 (3/4) 1 2 1 1 ''apple'' ''apple'' = Inr (3439793 / 3753600)
   \<and> sold_prob_markov loyal_db 1 (3/4) (- 2000) 48 1 1 ''apple'' ''apple'' = Inl OverflowError"
proof -
  have k: "(1::int) \<le> 2" by simp
  have no: "\<not> power_overflows 2 1" by (rule nonneg_power_no_overflow) simp
  have b1: "bucket_prob loyal_db (3/4) 1 2 1 ''apple'' ''apple'' (Suc 0) = 20353 / 23460"
    by (simp add: bucket_prob_def calc_discount_power_one
        p_buy_blend_def p_buy_pop_interp_def p_buy_user_beta_def loyal_db_def)
  have b2: "bucket_prob loyal_db (3/4) 1 2 1 ''apple'' ''apple'' 2 = 59 / 160"
    by (simp add: bucket_prob_def calc_discount_power_one
        p_buy_blend_def p_buy_pop_interp_def p_buy_user_beta_def loyal_db_def)
  have pr: "(\<Prod>k\<in>{1..2::nat}. 1 - bucket_prob loyal_db (3/4) 1 2 1 ''apple'' ''apple'' k)
              = (1 - 20353 / 23460) * (1 - 59 / 160)"
  proof -
    have s: "{1..2::nat} = {Suc 0, 2}" by auto
    show ?thesis unfolding s by (simp add: b1 b2)
  qed
  have a: "sold_prob_markov loyal_db 1 (3/4) 1 2 1 1 ''apple'' ''apple'' = Inr (3439793 / 3753600)"
    using sold_prob_markov_survival_product [OF k, of 1 "3/4" loyal_db 1 "''apple''" "''apple''" 1 1]
      pr no
    by simp
  have k': "(1::int) \<le> 48" by simp
  have o: "power_overflows (nat 48) (- 2000)" using power_overflows_example by simp
  note t' = sold_prob_markov_survival_product
      [OF k', of "- 2000" "3/4" loyal_db 1 "''apple''" "''apple''" 1 1]
  have b: "sold_prob_markov loyal_db 1 (3/4) (- 2000) 48 1 1 ''apple'' ''apple'' = Inl OverflowError"
    by (rule t' [THEN conjunct2, THEN conjunct1, THEN mp, OF o])
  show ?thesis using a b by (rule conjI)
qed

subsection \<open>Interpolation over a stored curve\<close>

lemma segment_between:
  fixes x0 x1 y0 y1 x :: real
  assumes "x0 \<le> x" "x < x1" "y0 \<le> y1"
  shows "y0 \<le> (y1 - y0) / (x1 - x0) * (x - x0) + y0"
    and "(y1 - y0) / (x1 - x0) * (x - x0) + y0 \<le> y1"
proof -
  have pos: "0 < x1 - x0" using assms by simp
  have "0 \<le> (y1 - y0) / (x1 - x0) * (x - x0)" using assms pos by simp
  then show "y0 \<le> (y1 - y0) / (x1 - x0) * (x - x0) + y0" by simp
  have "(y1 - y0) / (x1 - x0) * (x - x0) \<le> (y1 - y0) / (x1 - x0) * (x1 - x0)"
    using assms pos by (intro mult_left_mono) auto
  also have "\<dots> = y1 - y0" using pos by simp
  finally show "(y1 - y0) / (x1 - x0) * (x - x0) + y0 \<le> y1" by simp
qed

lemma segment_mono:
  fixes x0 x1 y0 y1 x x' :: real
  assumes "x0 \<le> x" "x \<le> x'" "x' < x1" "y0 \<le> y1"
  shows "(y1 - y0) / (x1 - x0) * (x - x0) + y0 \<le> (y1 - y0) / (x1 - x0) * (x' - x0) + y0"
proof -
  have "0 \<le> (y1 - y0) / (x1 - x0)" using assms by simp
  then have "(y1 - y0) / (x1 - x0) * (x - x0) \<le> (y1 - y0) / (x1 - x0) * (x' - x0)"
    using assms by (intro mult_left_mono) auto
  then show ?thesis by simp
qed

lemma interp_seg_bounds:
  assumes "ps \<noteq> []" "sorted (map fst ps)" "sorted (map snd ps)" "fst (hd ps) \<le> x"
  shows "snd (hd ps) \<le> interp_seg x ps \<and> interp_seg x ps \<le> snd (last ps)"
  using assms
proof (induction x ps rule: interp_seg.induct)
  case (1 x)
  then show ?case by simp
next
  case (2 x x0 y0)
  then show ?case by simp
next
  case (3 x x0 y0 x1 y1 ps)
  have y01: "y0 \<le> y1" using "3.prems"(3) by simp
  have ylast: "y1 \<le> snd (last ((x1, y1) # ps))"
    using "3.prems"(3) by (cases "ps = []") (auto simp: last_in_set)
  show ?case
  proof (cases "x1 \<le> x")
    case True
    have "snd (hd ((x1, y1) # ps)) \<le> interp_seg x ((x1, y1) # ps)
            \<and> interp_seg x ((x1, y1) # ps) \<le> snd (last ((x1, y1) # ps))"
      using "3.prems" True by (intro "3.IH") auto
    then show ?thesis using True y01 by simp
  next
    case False
    then have lt: "x < x1" by simp
    have x0: "x0 \<le> x" using "3.prems"(4) by simp
    show ?thesis
    proof (cases "x0 = x")
      case True
      then show ?thesis using lt y01 ylast by simp
    next
      case neq: False
      have "y0 \<le> (y1 - y0) / (x1 - x0) * (x - x0) + y0"
        "(y1 - y0) / (x1 - x0) * (x - x0) + y0 \<le> y1"
        using segment_between[OF x0 lt y01] by auto
      then show ?thesis using lt neq ylast by simp
    qed
  qed
qed

lemma interp_seg_mono:
  assumes "ps \<noteq> []" "sorted (map fst ps)" "sorted (map snd ps)" "fst (hd ps) \<le> x" "x \<le> x'"
  shows "interp_seg x ps \<le> interp_seg x' ps"
  using assms
proof (induction x ps rule: interp_seg.induct)
  case (1 x)
  then show ?case by simp
next
  case (2 x x0 y0)
  then show ?case by simp
next
  case (3 x x0 y0 x1 y1 ps)
  have y01: "y0 \<le> y1" using "3.prems"(3) by simp
  have x0: "x0 \<le> x" using "3.prems"(4) by simp
  have tl: "sorted (map fst ((x1, y1) # ps))" "sorted (map snd ((x1, y1) # ps))"
    using "3.prems" by auto
  show ?case
  proof (cases "x1 \<le> x")
    case True
    have "interp_seg x ((x1, y1) # ps) \<le> interp_seg x' ((x1, y1) # ps)"
      using "3.prems" True by (intro "3.IH") auto
    then show ?thesis using True "3.prems"(5) by simp
  next
    case False
    then have lt: "x < x1" by simp
    have here: "interp_seg x ((x0, y0) # (x1, y1) # ps) \<le> y1"
      using segment_between(2)[OF x0 lt y01] lt y01 by simp
    show ?thesis
    proof (cases "x1 \<le> x'")
      case True
      have "y1 \<le> interp_seg x' ((x1, y1) # ps)"
        using interp_seg_bounds[of "(x1, y1) # ps" x'] tl True by simp
      then show ?thesis using here True by simp
    next
      case F2: False
      then have lt': "x' < x1" by simp
      show ?thesis
      proof (cases "x0 = x")
        case True
        have "y0 \<le> (y1 - y0) / (x1 - x0) * (x' - x0) + y0"
          using segment_between(1)[of x0 x' x1 y0 y1] True "3.prems"(5) lt' y01 by simp
        then show ?thesis using True lt lt' by simp
      next
        case neq: False
        then have "x0 \<noteq> x'" using x0 "3.prems"(5) by simp
        then show ?thesis
          using segment_mono[OF x0 "3.prems"(5) lt' y01] lt lt' neq by simp
      qed
    qed
  qed
qed

lemma zip_ends:
  assumes "xs \<noteq> []" "length xs = length ys"
  shows "zip xs ys \<noteq> []" "map fst (zip xs ys) = xs" "map snd (zip xs ys) = ys"
    "fst (hd (zip xs ys)) = hd xs" "snd (hd (zip xs ys)) = hd ys"
    "snd (last (zip xs ys)) = last ys"
proof -
  have ys: "ys \<noteq> []" using assms by auto
  show z: "zip xs ys \<noteq> []" using assms ys by (cases xs; cases ys) auto
  show "map fst (zip xs ys) = xs" "map snd (zip xs ys) = ys" using assms by simp_all
  show "fst (hd (zip xs ys)) = hd xs" "snd (hd (zip xs ys)) = hd ys"
    using assms ys by (cases xs; cases ys; simp)+
  have "last (zip xs ys) = (last xs, last ys)"
    using assms ys by (simp add: last_zip)
  then show "snd (last (zip xs ys)) = last ys" by simp
qed

lemma np_interp_mono:
  assumes "xp \<noteq> []" "length xp = length fp" "sorted xp" "sorted fp" "x \<le> x'"
  shows "np_interp x xp fp (hd fp) (last fp) \<le> np_interp x' xp fp (hd fp) (last fp)"
proof -
  note z = zip_ends[OF assms(1,2)]
  have fp: "fp \<noteq> []" using assms by auto
  have hl: "hd fp \<le> last fp"
    using assms(4) fp by (cases fp) (auto simp: last_in_set)
  have hdlast: "hd xp \<le> last xp"
    using assms(3,1) by (cases xp) (auto simp: last_in_set)
  have bounds: "hd fp \<le> interp_seg y (zip xp fp) \<and> interp_seg y (zip xp fp) \<le> last fp"
    if "hd xp \<le> y" for y
    using interp_seg_bounds[of "zip xp fp" y] z assms(3,4) that by simp
  show ?thesis
  proof (cases "x' > last xp")
    case True
    show ?thesis
    proof (cases "x > last xp")
      case True
      then show ?thesis using \<open>x' > last xp\<close> by (simp add: np_interp_def)
    next
      case False
      then show ?thesis
        using True hl bounds[of x] by (auto simp: np_interp_def)
    qed
  next
    case False
    then have xl: "\<not> x > last xp" using assms(5) by simp
    show ?thesis
    proof (cases "x < hd xp")
      case True
      then show ?thesis
        using False xl bounds[of x'] by (auto simp: np_interp_def)
    next
      case F: False
      then have "hd xp \<le> x" by simp
      then have "interp_seg x (zip xp fp) \<le> interp_seg x' (zip xp fp)"
        using interp_seg_mono[of "zip xp fp" x x'] z assms(3,4,5) by simp
      then show ?thesis using False xl F assms(5) by (simp add: np_interp_def)
    qed
  qed
qed

lemma linear_fallback_mono:
  fixes d1 d2 :: real
  assumes "d1 \<le> d2"
  shows "min 0.9 (0.05 + (d1 / 100) * 0.85) \<le> min 0.9 (0.05 + (d2 / 100) * 0.85)"
  using assms by (simp add: min_def)

lemma p_buy_pop_interp_mono:
  assumes "\<forall>curve. models_available db \<and> find (\<lambda>c. category c = cat) (price_curves db) = Some curve
              \<and> x_discount_bins curve \<noteq> []
              \<and> length (x_discount_bins curve) = length (y_pbuy curve)
              \<longrightarrow> sorted (x_discount_bins curve) \<and> sorted (y_pbuy curve)"
    and "d1 \<le> d2"
  shows "p_buy_pop_interp db d1 cat \<le> p_buy_pop_interp db d2 cat"
proof (cases "models_available db")
  case False
  then show ?thesis using linear_fallback_mono[OF assms(2)] by (simp add: p_buy_pop_interp_def)
next
  case True
  show ?thesis
  proof (cases "find (\<lambda>c. category c = cat) (price_curves db)")
    case None
    then show ?thesis using True linear_fallback_mono[OF assms(2)] by (simp add: p_buy_pop_interp_def)
  next
    case (Some curve)
    show ?thesis
    proof (cases "x_discount_bins curve = [] \<or> y_pbuy curve = []
                  \<or> length (x_discount_bins curve) \<noteq> length (y_pbuy curve)")
      case True
      then show ?thesis using \<open>models_available db\<close> Some by (auto simp: p_buy_pop_interp_def Let_def)
    next
      case False
      then have wf: "x_discount_bins curve \<noteq> []" "y_pbuy curve \<noteq> []"
        "length (x_discount_bins curve) = length (y_pbuy curve)" by auto
      have s: "sorted (x_discount_bins curve)" "sorted (y_pbuy curve)"
        using assms(1) True Some wf by auto
      have "p_buy_pop_interp db d cat =
              np_interp d (x_discount_bins curve) (y_pbuy curve) (hd (y_pbuy curve)) (last (y_pbuy curve))"
        for d
        using True Some wf by (simp add: p_buy_pop_interp_def Let_def)
      then show ?thesis using np_interp_mono[OF wf(1,3) s assms(2)] by simp
    qed
  qed
qed

lemma p_buy_pop_interp_clamp:
  assumes "models_available db" "find (\<lambda>c. category c = cat) (price_curves db) = Some curve"
    and "x_discount_bins curve \<noteq> []" "length (x_discount_bins curve) = length (y_pbuy curve)"
    and "sorted (x_discount_bins curve)"
  shows "d < hd (x_discount_bins curve) \<longrightarrow> p_buy_pop_interp db d cat = hd (y_pbuy curve)"
    and "last (x_discount_bins curve) < d \<longrightarrow> p_buy_pop_interp db d cat = last (y_pbuy curve)"
proof -
  have ne: "y_pbuy curve \<noteq> []" using assms(3,4) by auto
  have hdlast: "hd (x_discount_bins curve) \<le> last (x_discount_bins curve)"
    using assms(5,3) by (cases "x_discount_bins curve") (auto simp: last_in_set)
  have e: "p_buy_pop_interp db d cat =
              np_interp d (x_discount_bins curve) (y_pbuy curve) (hd (y_pbuy curve)) (last (y_pbuy curve))"
    using assms ne by (simp add: p_buy_pop_interp_def Let_def)
  show "d < hd (x_discount_bins curve) \<longrightarrow> p_buy_pop_interp db d cat = hd (y_pbuy curve)"
    using hdlast by (auto simp: e np_interp_def)
  show "last (x_discount_bins curve) < d \<longrightarrow> p_buy_pop_interp db d cat = last (y_pbuy curve)"
    by (simp add: e np_interp_def)
qed

text \<open>
  C6, as the code has it. When the category's stored curve, if it is well-formed, has
  non-decreasing discount bins and non-decreasing buy probabilities, the population
  probability is non-decreasing in the discount (a category without a curve, or with a
  malformed one, needs no condition). For every well-formed curve with non-decreasing
  bins, a discount below the first bin gives the first probability and a discount above
  the last bin gives the last probability.
\<close>

theorem pop_probability_monotone_clamped:
  "((\<forall>curve. models_available db \<and> find (\<lambda>c. category c = cat) (price_curves db) = Some curve
        \<and> x_discount_bins curve \<noteq> []
        \<and> length (x_discount_bins curve) = length (y_pbuy curve)
      \<longrightarrow> sorted (x_discount_bins curve) \<and> sorted (y_pbuy curve))
    \<longrightarrow> (d1 \<le> d2 \<longrightarrow> p_buy_pop_interp db d1 cat \<le> p_buy_pop_interp db d2 cat))
   \<and> (\<forall>curve. models_available db
          \<and> find (\<lambda>c. category c = cat) (price_curves db) = Some curve
          \<and> x_discount_bins curve \<noteq> []
          \<and> length (x_discount_bins curve) = length (y_pbuy curve)
          \<and> sorted (x_discount_bins curve)
        \<longrightarrow> (d < hd (x_discount_bins curve) \<longrightarrow> p_buy_pop_interp db d cat = hd (y_pbuy curve))
            \<and> (last (x_discount_bins curve) < d \<longrightarrow>
                 p_buy_pop_interp db d cat = last (y_pbuy curve)))"
proof (intro conjI allI impI)
  assume "\<forall>curve. models_available db \<and> find (\<lambda>c. category c = cat) (price_curves db) = Some curve
        \<and> x_discount_bins curve \<noteq> []
        \<and> length (x_discount_bins curve) = length (y_pbuy curve)
      \<longrightarrow> sorted (x_discount_bins curve) \<and> sorted (y_pbuy curve)"
    and "d1 \<le> d2"
  then show "p_buy_pop_interp db d1 cat \<le> p_buy_pop_interp db d2 cat"
    by (rule p_buy_pop_interp_mono)
next
  fix curve
  assume a: "models_available db
          \<and> find (\<lambda>c. category c = cat) (price_curves db) = Some curve
          \<and> x_discount_bins curve \<noteq> []
          \<and> length (x_discount_bins curve) = length (y_pbuy curve)
          \<and> sorted (x_discount_bins curve)"
  { assume "d < hd (x_discount_bins curve)"
    then show "p_buy_pop_interp db d cat = hd (y_pbuy curve)"
      using p_buy_pop_interp_clamp(1)[of db cat curve d] a by blast }
  { assume "last (x_discount_bins curve) < d"
    then show "p_buy_pop_interp db d cat = last (y_pbuy curve)"
      using p_buy_pop_interp_clamp(2)[of db cat curve d] a by blast }
qed

lemma seeded_curve:
  "find (\<lambda>c. category c = ''apple'') (price_curves seeded_db) =
     Some \<lparr>category = ''apple'', x_discount_bins = [0, 10, 25, 50, 75],
           y_pbuy = [0.05, 0.15, 0.45, 0.75, 0.90]\<rparr>"
  by (simp add: seeded_db_def)

lemma decreasing_curve:
  "find (\<lambda>c. category c = ''apple'') (price_curves decreasing_db) =
     Some \<lparr>category = ''apple'', x_discount_bins = [0, 50], y_pbuy = [0.9, 0.1]\<rparr>"
  by (simp add: decreasing_db_def)

theorem pop_probability_monotone_clamped_witness:
  "p_buy_pop_interp seeded_db 20 ''apple'' \<le> p_buy_pop_interp seeded_db 60 ''apple''
   \<and> p_buy_pop_interp seeded_db (- 5) ''apple'' = 0.05
   \<and> p_buy_pop_interp seeded_db 80 ''apple'' = 0.9
   \<and> p_buy_pop_interp decreasing_db (- 5) ''apple'' = 0.9
   \<and> p_buy_pop_interp decreasing_db 60 ''apple'' = 0.1"
proof -
  have m: "models_available seeded_db" by (simp add: seeded_db_def)
  have m': "models_available decreasing_db" by (simp add: decreasing_db_def)
  have h: "\<forall>curve. models_available seeded_db
              \<and> find (\<lambda>c. category c = ''apple'') (price_curves seeded_db) = Some curve
              \<and> x_discount_bins curve \<noteq> []
              \<and> length (x_discount_bins curve) = length (y_pbuy curve)
              \<longrightarrow> sorted (x_discount_bins curve) \<and> sorted (y_pbuy curve)"
    by (simp add: seeded_curve)
  note t = pop_probability_monotone_clamped [of seeded_db "''apple''"]
  note t' = pop_probability_monotone_clamped [of decreasing_db "''apple''"]
  have "p_buy_pop_interp seeded_db 20 ''apple'' \<le> p_buy_pop_interp seeded_db 60 ''apple''"
    using t[of 20 60] h by simp
  moreover have "p_buy_pop_interp seeded_db (- 5) ''apple'' = 0.05"
    using t[of 0 0 "- 5"] m seeded_curve by simp
  moreover have "p_buy_pop_interp seeded_db 80 ''apple'' = 0.9"
    using t[of 0 0 80] m seeded_curve by simp
  moreover have "p_buy_pop_interp decreasing_db (- 5) ''apple'' = 0.9"
    using t'[of 0 0 "- 5"] m' decreasing_curve by simp
  moreover have "p_buy_pop_interp decreasing_db 60 ''apple'' = 0.1"
    using t'[of 0 0 60] m' decreasing_curve by simp
  ultimately show ?thesis by blast
qed

theorem decreasing_curve_not_monotone:
  "p_buy_pop_interp decreasing_db 0 ''apple'' = 0.9
   \<and> p_buy_pop_interp decreasing_db 50 ''apple'' = 0.1
   \<and> \<not> p_buy_pop_interp decreasing_db 0 ''apple'' \<le> p_buy_pop_interp decreasing_db 50 ''apple''"
  by (simp add: p_buy_pop_interp_def decreasing_db_def np_interp_def)

subsection \<open>Units saved per lot\<close>

lemma sold_prob_markov_defined:
  assumes "1 \<le> K" "\<not> power_overflows (nat K) alph"
  shows "\<exists>s. sold_prob_markov db f dmx alph K dt u pn cat = Inr s"
  using sold_prob_markov_closed_form[OF assms] by blast

lemma estimate_units_saved_cases:
  "estimate_units_saved db lot bp dp u K dt = Inr 0
   \<or> (\<exists>e. estimate_units_saved db lot bp dp u K dt = Inl e)
   \<or> (\<exists>x. estimate_units_saved db lot bp dp u K dt = Inr (max 0 x))"
  by (auto simp: estimate_units_saved_def Let_def split: option.splits sum.splits)

lemma estimate_units_saved_nonneg:
  assumes "estimate_units_saved db lot bp dp u K dt = Inr units"
  shows "0 \<le> units"
  using estimate_units_saved_cases[of db lot bp dp u K dt] assms by auto

lemma estimate_units_saved_item:
  assumes "models_available db" "find (\<lambda>i. item_id i = lot) (inventory db) = Some item"
  shows "estimate_units_saved db lot bp dp u K dt =
           (case sold_prob_markov db
                   (case freshness item of None \<Rightarrow> 1
                    | Some s \<Rightarrow> max 0 (min 1 (if 1 < s then s / 100 else s)))
                   (dmax dp) (alpha dp) K dt u (fruit_type item) (fruit_type item) of
              Inl e \<Rightarrow> Inl e
            | Inr ps_dyn \<Rightarrow>
                (case sold_prob_markov db
                        (case freshness item of None \<Rightarrow> 1
                         | Some s \<Rightarrow> max 0 (min 1 (if 1 < s then s / 100 else s)))
                        (dmax bp) (alpha bp) K dt u (fruit_type item) (fruit_type item) of
                   Inl e \<Rightarrow> Inl e
                 | Inr ps_base \<Rightarrow>
                     Inr (max 0 (real_of_int (quantity item) * (ps_dyn - ps_base)))))"
proof -
  have fr: "(case freshness item of
                     Some freshness_score \<Rightarrow>
                       let freshness_score =
                             (if freshness_score > 1 then freshness_score / 100 else freshness_score)
                       in max 0 (min 1 freshness_score)
                   | None \<Rightarrow> 1)
            = (case freshness item of None \<Rightarrow> 1
               | Some s \<Rightarrow> max 0 (min 1 (if 1 < s then s / 100 else s)))"
    by (simp add: Let_def split: option.splits)
  show ?thesis using assms by (simp add: estimate_units_saved_def Let_def fr)
qed

lemma estimate_units_saved_defined:
  assumes "1 \<le> K" "\<not> power_overflows (nat K) (alpha dp)" "\<not> power_overflows (nat K) (alpha bp)"
  shows "\<exists>units. estimate_units_saved db lot bp dp u K dt = Inr units"
proof (cases "models_available db")
  case False
  then show ?thesis by (simp add: estimate_units_saved_def)
next
  case True
  show ?thesis
  proof (cases "find (\<lambda>i. item_id i = lot) (inventory db)")
    case None
    then show ?thesis using True by (simp add: estimate_units_saved_def)
  next
    case (Some item)
    define fr where "fr = (case freshness item of None \<Rightarrow> 1
                           | Some s \<Rightarrow> max 0 (min 1 (if 1 < s then s / 100 else s)))"
    obtain s1 where s1: "sold_prob_markov db fr (dmax dp) (alpha dp) K dt u (fruit_type item) (fruit_type item) = Inr s1"
      using sold_prob_markov_defined[OF assms(1,2)] by blast
    obtain s2 where s2: "sold_prob_markov db fr (dmax bp) (alpha bp) K dt u (fruit_type item) (fruit_type item) = Inr s2"
      using sold_prob_markov_defined[OF assms(1,3)] by blast
    show ?thesis
      by (simp add: estimate_units_saved_item[OF True Some] fr_def[symmetric] s1 s2)
  qed
qed

lemma estimate_units_saved_overflow:
  assumes m: "models_available db" and f: "find (\<lambda>i. item_id i = lot) (inventory db) = Some item"
    and o: "power_overflows (nat K) (alpha dp) \<or> power_overflows (nat K) (alpha bp)"
  shows "estimate_units_saved db lot bp dp u K dt = Inl OverflowError"
proof -
  define fr where "fr = (case freshness item of None \<Rightarrow> 1
                         | Some s \<Rightarrow> max 0 (min 1 (if 1 < s then s / 100 else s)))"
  have K: "1 \<le> K"
  proof (rule ccontr)
    assume "\<not> 1 \<le> K"
    then have "nat K = 0" by simp
    then show False using o by (simp add: power_overflows_def)
  qed
  show ?thesis
  proof (cases "power_overflows (nat K) (alpha dp)")
    case True
    have "sold_prob_markov db fr (dmax dp) (alpha dp) K dt u (fruit_type item) (fruit_type item)
            = Inl OverflowError"
      by (rule sold_prob_markov_overflow[OF True])
    then show ?thesis by (simp add: estimate_units_saved_item[OF m f] fr_def[symmetric])
  next
    case False
    then have ob: "power_overflows (nat K) (alpha bp)" using o by simp
    obtain s1 where s1: "sold_prob_markov db fr (dmax dp) (alpha dp) K dt u (fruit_type item) (fruit_type item) = Inr s1"
      using sold_prob_markov_defined[OF K False] by blast
    have "sold_prob_markov db fr (dmax bp) (alpha bp) K dt u (fruit_type item) (fruit_type item)
            = Inl OverflowError"
      by (rule sold_prob_markov_overflow[OF ob])
    then show ?thesis by (simp add: estimate_units_saved_item[OF m f] fr_def[symmetric] s1)
  qed
qed

text \<open>
  C4, as the code has it. Every value that \<^verbatim>\<open>estimate_units_saved\<close> returns is at least
  0. For \<open>K \<ge> 1\<close> and two policies whose power does not overflow at any bucket (as for
  every \<open>alpha \<ge> 0\<close>) it returns a value: 0 when the models are unavailable or the lot is
  unknown, and \<open>max 0 (quantity * (ps_dyn - ps_base))\<close> otherwise, also when the dynamic
  policy is the less aggressive one. When the lot is known and a power overflows, the
  call raises OverflowError.
\<close>

theorem units_saved_nonnegative:
  "(\<forall>units. estimate_units_saved db lot bp dp u K dt = Inr units \<longrightarrow> 0 \<le> units)
   \<and> (1 \<le> K \<and> \<not> power_overflows (nat K) (alpha dp) \<and> \<not> power_overflows (nat K) (alpha bp) \<longrightarrow>
        (\<exists>units. estimate_units_saved db lot bp dp u K dt = Inr units \<and> 0 \<le> units
           \<and> (\<not> models_available db \<or> find (\<lambda>i. item_id i = lot) (inventory db) = None
                \<longrightarrow> units = 0)
           \<and> (\<forall>item. models_available db \<and> find (\<lambda>i. item_id i = lot) (inventory db) = Some item
                \<longrightarrow> (\<exists>ps_dyn ps_base.
                       sold_prob_markov db
                         (case freshness item of None \<Rightarrow> 1
                          | Some s \<Rightarrow> max 0 (min 1 (if 1 < s then s / 100 else s)))
                         (dmax dp) (alpha dp) K dt u (fruit_type item) (fruit_type item) = Inr ps_dyn
                       \<and> sold_prob_markov db
                         (case freshness item of None \<Rightarrow> 1
                          | Some s \<Rightarrow> max 0 (min 1 (if 1 < s then s / 100 else s)))
                         (dmax bp) (alpha bp) K dt u (fruit_type item) (fruit_type item) = Inr ps_base
                       \<and> units = max 0 (real_of_int (quantity item) * (ps_dyn - ps_base))))))
   \<and> (0 \<le> alpha dp \<and> 0 \<le> alpha bp \<longrightarrow>
        \<not> power_overflows (nat K) (alpha dp) \<and> \<not> power_overflows (nat K) (alpha bp))
   \<and> (models_available db \<and> find (\<lambda>i. item_id i = lot) (inventory db) \<noteq> None
        \<and> (power_overflows (nat K) (alpha dp) \<or> power_overflows (nat K) (alpha bp)) \<longrightarrow>
        estimate_units_saved db lot bp dp u K dt = Inl OverflowError)"
proof (intro conjI allI impI)
  fix units assume "estimate_units_saved db lot bp dp u K dt = Inr units"
  then show "0 \<le> units" by (rule estimate_units_saved_nonneg)
next
  assume a: "1 \<le> K \<and> \<not> power_overflows (nat K) (alpha dp) \<and> \<not> power_overflows (nat K) (alpha bp)"
  then have K: "1 \<le> K" and nd: "\<not> power_overflows (nat K) (alpha dp)"
    and nb: "\<not> power_overflows (nat K) (alpha bp)" by auto
  obtain units where e: "estimate_units_saved db lot bp dp u K dt = Inr units"
    using estimate_units_saved_defined[OF K nd nb] by blast
  have nn: "0 \<le> units" using e by (rule estimate_units_saved_nonneg)
  have z: "\<not> models_available db \<or> find (\<lambda>i. item_id i = lot) (inventory db) = None \<longrightarrow> units = 0"
  proof
    assume "\<not> models_available db \<or> find (\<lambda>i. item_id i = lot) (inventory db) = None"
    then have "estimate_units_saved db lot bp dp u K dt = Inr 0"
      by (auto simp: estimate_units_saved_def)
    then show "units = 0" using e by simp
  qed
  have m: "\<forall>item. models_available db \<and> find (\<lambda>i. item_id i = lot) (inventory db) = Some item
                \<longrightarrow> (\<exists>ps_dyn ps_base.
                       sold_prob_markov db
                         (case freshness item of None \<Rightarrow> 1
                          | Some s \<Rightarrow> max 0 (min 1 (if 1 < s then s / 100 else s)))
                         (dmax dp) (alpha dp) K dt u (fruit_type item) (fruit_type item) = Inr ps_dyn
                       \<and> sold_prob_markov db
                         (case freshness item of None \<Rightarrow> 1
                          | Some s \<Rightarrow> max 0 (min 1 (if 1 < s then s / 100 else s)))
                         (dmax bp) (alpha bp) K dt u (fruit_type item) (fruit_type item) = Inr ps_base
                       \<and> units = max 0 (real_of_int (quantity item) * (ps_dyn - ps_base)))"
  proof (intro allI impI)
    fix item
    assume a: "models_available db \<and> find (\<lambda>i. item_id i = lot) (inventory db) = Some item"
    then have ma: "models_available db" and fi: "find (\<lambda>i. item_id i = lot) (inventory db) = Some item"
      by auto
    define fr where "fr = (case freshness item of None \<Rightarrow> 1
                          | Some s \<Rightarrow> max 0 (min 1 (if 1 < s then s / 100 else s)))"
    obtain s1 where s1: "sold_prob_markov db fr (dmax dp) (alpha dp) K dt u (fruit_type item) (fruit_type item) = Inr s1"
      using sold_prob_markov_defined[OF K nd] by blast
    obtain s2 where s2: "sold_prob_markov db fr (dmax bp) (alpha bp) K dt u (fruit_type item) (fruit_type item) = Inr s2"
      using sold_prob_markov_defined[OF K nb] by blast
    have "estimate_units_saved db lot bp dp u K dt
            = Inr (max 0 (real_of_int (quantity item) * (s1 - s2)))"
      by (simp add: estimate_units_saved_item[OF ma fi] fr_def[symmetric] s1 s2)
    then have "units = max 0 (real_of_int (quantity item) * (s1 - s2))" using e by simp
    then show "\<exists>ps_dyn ps_base.
                       sold_prob_markov db
                         (case freshness item of None \<Rightarrow> 1
                          | Some s \<Rightarrow> max 0 (min 1 (if 1 < s then s / 100 else s)))
                         (dmax dp) (alpha dp) K dt u (fruit_type item) (fruit_type item) = Inr ps_dyn
                       \<and> sold_prob_markov db
                         (case freshness item of None \<Rightarrow> 1
                          | Some s \<Rightarrow> max 0 (min 1 (if 1 < s then s / 100 else s)))
                         (dmax bp) (alpha bp) K dt u (fruit_type item) (fruit_type item) = Inr ps_base
                       \<and> units = max 0 (real_of_int (quantity item) * (ps_dyn - ps_base))"
      using s1 s2 unfolding fr_def by blast
  qed
  show "\<exists>units. estimate_units_saved db lot bp dp u K dt = Inr units \<and> 0 \<le> units
           \<and> (\<not> models_available db \<or> find (\<lambda>i. item_id i = lot) (inventory db) = None
                \<longrightarrow> units = 0)
           \<and> (\<forall>item. models_available db \<and> find (\<lambda>i. item_id i = lot) (inventory db) = Some item
                \<longrightarrow> (\<exists>ps_dyn ps_base.
                       sold_prob_markov db
                         (case freshness item of None \<Rightarrow> 1
                          | Some s \<Rightarrow> max 0 (min 1 (if 1 < s then s / 100 else s)))
                         (dmax dp) (alpha dp) K dt u (fruit_type item) (fruit_type item) = Inr ps_dyn
                       \<and> sold_prob_markov db
                         (case freshness item of None \<Rightarrow> 1
                          | Some s \<Rightarrow> max 0 (min 1 (if 1 < s then s / 100 else s)))
                         (dmax bp) (alpha bp) K dt u (fruit_type item) (fruit_type item) = Inr ps_base
                       \<and> units = max 0 (real_of_int (quantity item) * (ps_dyn - ps_base))))"
    by (intro exI[of _ units] conjI e nn z m)
next
  assume "0 \<le> alpha dp \<and> 0 \<le> alpha bp"
  then show "\<not> power_overflows (nat K) (alpha dp)" by (intro nonneg_power_no_overflow) simp
next
  assume "0 \<le> alpha dp \<and> 0 \<le> alpha bp"
  then show "\<not> power_overflows (nat K) (alpha bp)" by (intro nonneg_power_no_overflow) simp
next
  assume a: "models_available db \<and> find (\<lambda>i. item_id i = lot) (inventory db) \<noteq> None
        \<and> (power_overflows (nat K) (alpha dp) \<or> power_overflows (nat K) (alpha bp))"
  then obtain item where "find (\<lambda>i. item_id i = lot) (inventory db) = Some item" by auto
  then show "estimate_units_saved db lot bp dp u K dt = Inl OverflowError"
    using a by (intro estimate_units_saved_overflow) auto
qed

theorem units_saved_nonnegative_witness:
  "(\<exists>units. estimate_units_saved seeded_db 1 \<lparr>dmax = 0.75, alpha = 1.5\<rparr> \<lparr>dmax = 0, alpha = 1\<rparr> 1 48 1
             = Inr units \<and> 0 \<le> units)
   \<and> estimate_units_saved seeded_db 1 \<lparr>dmax = 0, alpha = 1\<rparr> \<lparr>dmax = 0.5, alpha = - 2000\<rparr> 1 48 1
       = Inl OverflowError"
proof -
  have k: "(1::int) \<le> 48" by simp
  note t = units_saved_nonnegative
      [of seeded_db 1 "\<lparr>dmax = 0.75, alpha = 1.5\<rparr>" "\<lparr>dmax = 0, alpha = 1\<rparr>" 1 48 1]
  have al: "0 \<le> alpha \<lparr>dmax = 0, alpha = 1\<rparr> \<and> 0 \<le> alpha \<lparr>dmax = 0.75, alpha = 1.5\<rparr>" by simp
  note no = t [THEN conjunct2, THEN conjunct2, THEN conjunct1, THEN mp, OF al]
  have h: "1 \<le> (48::int) \<and> \<not> power_overflows (nat 48) (alpha \<lparr>dmax = 0, alpha = 1\<rparr>)
             \<and> \<not> power_overflows (nat 48) (alpha \<lparr>dmax = 0.75, alpha = 1.5\<rparr>)"
    using k no by (intro conjI) auto
  from t [THEN conjunct2, THEN conjunct1, THEN mp, OF h] obtain units where
    "estimate_units_saved seeded_db 1 \<lparr>dmax = 0.75, alpha = 1.5\<rparr> \<lparr>dmax = 0, alpha = 1\<rparr> 1 48 1
       = Inr units" "0 \<le> units"
    by (elim conjE exE)
  then have a: "\<exists>units. estimate_units_saved seeded_db 1 \<lparr>dmax = 0.75, alpha = 1.5\<rparr>
        \<lparr>dmax = 0, alpha = 1\<rparr> 1 48 1 = Inr units \<and> 0 \<le> units"
    by (intro exI[of _ units] conjI)
  note t' = units_saved_nonnegative
      [of seeded_db 1 "\<lparr>dmax = 0, alpha = 1\<rparr>" "\<lparr>dmax = 0.5, alpha = - 2000\<rparr>" 1 48 1]
  have m: "models_available seeded_db" by (simp add: seeded_db_def)
  have f: "find (\<lambda>i. item_id i = 1) (inventory seeded_db) \<noteq> None" by (simp add: seeded_db_def)
  have o: "power_overflows (nat 48) (alpha \<lparr>dmax = 0.5, alpha = - 2000\<rparr>)"
    using power_overflows_example by simp
  have h': "models_available seeded_db \<and> find (\<lambda>i. item_id i = 1) (inventory seeded_db) \<noteq> None
        \<and> (power_overflows (nat 48) (alpha \<lparr>dmax = 0.5, alpha = - 2000\<rparr>)
             \<or> power_overflows (nat 48) (alpha \<lparr>dmax = 0, alpha = 1\<rparr>))"
    using m f o by (intro conjI disjI1)
  have b: "estimate_units_saved seeded_db 1 \<lparr>dmax = 0, alpha = 1\<rparr> \<lparr>dmax = 0.5, alpha = - 2000\<rparr> 1 48 1
       = Inl OverflowError"
    by (rule t' [THEN conjunct2, THEN conjunct2, THEN conjunct2, THEN mp, OF h'])
  show ?thesis using a b by (rule conjI)
qed

theorem units_saved_zero_buckets_raises:
  "estimate_units_saved seeded_db 1 \<lparr>dmax = 0, alpha = 1\<rparr> \<lparr>dmax = 0.75, alpha = 1.5\<rparr> 1 0 1
     = Inl IndexError"
proof -
  have s: "sold_prob_markov db f dmx alph 0 dt u pn cat = Inl IndexError" for db f dmx alph dt u pn cat
    by (simp add: sold_prob_markov_def sold_prob_markov_with_def py_int_def linalg_inv_def
        mat_get_def py_index_def)
  have f: "find (\<lambda>i. item_id i = 1) (inventory seeded_db) =
             Some \<lparr>item_id = 1, store_id = 1, fruit_type = ''apple'', quantity = 100,
                   current_price = 0, original_price = 2, freshness = Some 0.2\<rparr>"
    by (simp add: seeded_db_def)
  have m: "models_available seeded_db" by (simp add: seeded_db_def)
  show ?thesis
    by (simp add: estimate_units_saved_def m f s Let_def)
qed

subsection \<open>Sale probability and the maximum discount\<close>

lemma clamped_discount_product:
  fixes m c :: real
  assumes "c \<le> 1"
  shows "max 0 (min m (m * c)) = max 0 m * max 0 c"
proof (cases "0 \<le> m")
  case True
  have "m * c \<le> m * 1" using True assms by (intro mult_left_mono) auto
  then have "min m (m * c) = m * c" by simp
  moreover have "max 0 (m * c) = m * max 0 c"
  proof (cases "0 \<le> c")
    case True
    then show ?thesis using \<open>0 \<le> m\<close> by (simp add: max_def)
  next
    case False
    then have "m * c \<le> 0" using \<open>0 \<le> m\<close> by (simp add: mult_nonneg_nonpos)
    then show ?thesis using False by (simp add: max_def)
  qed
  ultimately show ?thesis using True by (simp add: max_def)
next
  case False
  then have neg: "m < 0" by simp
  have "m * 1 \<le> m * c" using neg assms by (intro mult_left_mono_neg) auto
  then have "min m (m * c) = m" by simp
  then show ?thesis using neg by (simp add: max_def)
qed

lemma clamped_discount_mono:
  fixes m1 m2 c :: real
  assumes "c \<le> 1" "m1 \<le> m2"
  shows "max 0 (min m1 (m1 * c)) \<le> max 0 (min m2 (m2 * c))"
proof -
  have "max 0 m1 * max 0 c \<le> max 0 m2 * max 0 c"
    using assms(2) by (intro mult_right_mono) auto
  then show ?thesis by (simp add: clamped_discount_product[OF assms(1)])
qed

lemma clamped_discount_range:
  fixes m c :: real
  assumes "c \<le> 1"
  shows "0 \<le> max 0 (min m (m * c))" "max 0 (min m (m * c)) \<le> max 0 m"
proof -
  show "0 \<le> max 0 (min m (m * c))" by simp
  have "max 0 m * max 0 c \<le> max 0 m * 1"
    using assms by (intro mult_left_mono) auto
  then show "max 0 (min m (m * c)) \<le> max 0 m"
    by (simp add: clamped_discount_product[OF assms])
qed

lemma bucket_prob_eq:
  assumes "1 \<le> k" "k \<le> n" "py_pow (1 - (real k - 1) / real n) alph \<noteq> Inl OverflowError"
  shows "bucket_prob db dmx alph n u pn cat k =
           p_buy_blend db u pn cat
             (max 0 (min (if dmx > 1 then dmx / 100 else dmx)
                       ((if dmx > 1 then dmx / 100 else dmx)
                          * (1 - (1 - (real k - 1) / real n) powr alph))) * 100) 15"
  using calc_discount_pos_freshness[OF bucket_freshness_range[OF assms(1,2)] assms(3), of dmx]
  by (simp add: bucket_prob_def)

lemma bucket_prob_mono_dmax:
  assumes k: "1 \<le> k" "k \<le> n"
    and no: "py_pow (1 - (real k - 1) / real n) alph \<noteq> Inl OverflowError"
    and d: "dmax1 \<le> dmax2" "dmax2 \<le> 1 \<or> 1 < dmax1"
    and mono: "\<forall>d d'. 0 \<le> d \<and> d \<le> d'
                 \<and> d' \<le> 100 * max 0 (if dmax2 > 1 then dmax2 / 100 else dmax2)
               \<longrightarrow> p_buy_blend db u pn cat d 15 \<le> p_buy_blend db u pn cat d' 15"
    and le1: "\<forall>d. 0 \<le> d \<and> d \<le> 100 * max 0 (if dmax2 > 1 then dmax2 / 100 else dmax2)
               \<longrightarrow> p_buy_blend db u pn cat d 15 \<le> 1"
  shows "bucket_prob db dmax1 alph n u pn cat k \<le> bucket_prob db dmax2 alph n u pn cat k"
    and "bucket_prob db dmax2 alph n u pn cat k \<le> 1"
proof -
  define F where "F = 1 - (real k - 1) / real n"
  define c where "c = 1 - F powr alph"
  define m1 where "m1 = (if dmax1 > 1 then dmax1 / 100 else dmax1)"
  define m2 where "m2 = (if dmax2 > 1 then dmax2 / 100 else dmax2)"
  have "0 < F" using bucket_freshness_range(1)[OF k] by (simp add: F_def)
  then have "0 < F powr alph" by simp
  then have c: "c \<le> 1" by (simp add: c_def)
  have m: "m1 \<le> m2" using d by (auto simp: m1_def m2_def)
  have lo: "0 \<le> max 0 (min m1 (m1 * c)) * 100"
    using clamped_discount_range(1)[OF c, of m1] by simp
  have mid: "max 0 (min m1 (m1 * c)) * 100 \<le> max 0 (min m2 (m2 * c)) * 100"
    using clamped_discount_mono[OF c m] by simp
  have hi: "max 0 (min m2 (m2 * c)) * 100 \<le> 100 * max 0 m2"
    using clamped_discount_range(2)[OF c, of m2] by simp
  have "p_buy_blend db u pn cat (max 0 (min m1 (m1 * c)) * 100) 15
               \<le> p_buy_blend db u pn cat (max 0 (min m2 (m2 * c)) * 100) 15"
    using mono lo mid hi unfolding m2_def by blast
  then show "bucket_prob db dmax1 alph n u pn cat k \<le> bucket_prob db dmax2 alph n u pn cat k"
    unfolding bucket_prob_eq[OF k no] m1_def m2_def c_def F_def .
  have lo2: "0 \<le> max 0 (min m2 (m2 * c)) * 100" using lo mid by linarith
  have "p_buy_blend db u pn cat (max 0 (min m2 (m2 * c)) * 100) 15 \<le> 1"
    using le1 lo2 hi unfolding m2_def by blast
  then show "bucket_prob db dmax2 alph n u pn cat k \<le> 1"
    unfolding bucket_prob_eq[OF k no] m2_def c_def F_def .
qed

text \<open>
  C3, as the code has it. Write \<open>top\<close> for 100 times the larger maximum discount on its
  scale as a fraction, the largest discount percentage the two policies can give. When
  the blended buy probability of the user, product and category is non-decreasing in
  the discount on \<open>[0, top]\<close> and at most 1 there, and the two maximum discounts are read
  on the same scale (both at most 1, or both above 1 and so both divided by 100), then
  for \<open>K \<ge> 1\<close> and a power that does not overflow (as for every \<open>alpha \<ge> 0\<close>) the sale
  probability is defined for both and does not decrease when the maximum discount
  increases. When the power overflows, both calls raise OverflowError.
\<close>

theorem sale_probability_monotone_in_dmax:
  assumes K: "1 \<le> K"
    and d: "dmax1 \<le> dmax2" "dmax2 \<le> 1 \<or> 1 < dmax1"
    and mono: "\<forall>d d'. 0 \<le> d \<and> d \<le> d'
                 \<and> d' \<le> 100 * max 0 (if dmax2 > 1 then dmax2 / 100 else dmax2)
               \<longrightarrow> p_buy_blend db u pn cat d 15 \<le> p_buy_blend db u pn cat d' 15"
    and le1: "\<forall>d. 0 \<le> d \<and> d \<le> 100 * max 0 (if dmax2 > 1 then dmax2 / 100 else dmax2)
               \<longrightarrow> p_buy_blend db u pn cat d 15 \<le> 1"
  shows "(\<not> power_overflows (nat K) alph \<longrightarrow>
            (\<exists>s1 s2. sold_prob_markov db f dmax1 alph K dt u pn cat = Inr s1
               \<and> sold_prob_markov db f dmax2 alph K dt u pn cat = Inr s2
               \<and> s1 \<le> s2))
         \<and> (power_overflows (nat K) alph \<longrightarrow>
              sold_prob_markov db f dmax1 alph K dt u pn cat = Inl OverflowError
              \<and> sold_prob_markov db f dmax2 alph K dt u pn cat = Inl OverflowError)
         \<and> (0 \<le> alph \<longrightarrow> \<not> power_overflows (nat K) alph)"
proof (intro conjI impI)
  assume no: "\<not> power_overflows (nat K) alph"
  define n where "n = nat K"
  define k0 where "k0 = nat (min (\<lfloor>(1 - max 0 (min 1 f)) * real_of_int K\<rfloor> + 1) K)"
  have "1 \<le> min (\<lfloor>(1 - max 0 (min 1 f)) * real_of_int K\<rfloor> + 1) K"
    using start_bucket_range[OF K, of f] by simp
  then have k0: "1 \<le> k0" unfolding k0_def by linarith
  have e1: "sold_prob_markov db f dmax1 alph K dt u pn cat =
              Inr (1 - (\<Prod>k\<in>{k0..n}. 1 - bucket_prob db dmax1 alph n u pn cat k))"
    unfolding k0_def n_def by (rule sold_prob_markov_closed_form[OF K no])
  have e2: "sold_prob_markov db f dmax2 alph K dt u pn cat =
              Inr (1 - (\<Prod>k\<in>{k0..n}. 1 - bucket_prob db dmax2 alph n u pn cat k))"
    unfolding k0_def n_def by (rule sold_prob_markov_closed_form[OF K no])
  have "(\<Prod>k\<in>{k0..n}. 1 - bucket_prob db dmax2 alph n u pn cat k)
          \<le> (\<Prod>k\<in>{k0..n}. 1 - bucket_prob db dmax1 alph n u pn cat k)"
  proof (rule prod_mono)
    fix k assume "k \<in> {k0..n}"
    then have k: "1 \<le> k" "k \<le> n" using k0 by auto
    have nk: "py_pow (1 - (real k - 1) / real n) alph \<noteq> Inl OverflowError"
      using no k unfolding n_def by (auto simp: power_overflows_def)
    note b = bucket_prob_mono_dmax[OF k nk d mono le1]
    show "0 \<le> 1 - bucket_prob db dmax2 alph n u pn cat k
            \<and> 1 - bucket_prob db dmax2 alph n u pn cat k \<le> 1 - bucket_prob db dmax1 alph n u pn cat k"
      using b by simp
  qed
  then show "\<exists>s1 s2. sold_prob_markov db f dmax1 alph K dt u pn cat = Inr s1
               \<and> sold_prob_markov db f dmax2 alph K dt u pn cat = Inr s2
               \<and> s1 \<le> s2"
    using e1 e2 by simp
next
  assume o: "power_overflows (nat K) alph"
  show "sold_prob_markov db f dmax1 alph K dt u pn cat = Inl OverflowError"
    by (rule sold_prob_markov_overflow[OF o])
  show "sold_prob_markov db f dmax2 alph K dt u pn cat = Inl OverflowError"
    by (rule sold_prob_markov_overflow[OF o])
next
  assume "0 \<le> alph"
  then show "\<not> power_overflows (nat K) alph" by (rule nonneg_power_no_overflow)
qed

lemma loyal_db_other_user_blend:
  "p_buy_blend loyal_db 2 ''apple'' ''apple'' d 15 = min 0.9 (0.05 + (d / 100) * 0.85)"
  by (simp add: p_buy_blend_def p_buy_user_beta_def p_buy_pop_interp_def loyal_db_def)

theorem sale_probability_monotone_in_dmax_witness:
  "(\<exists>s1 s2. sold_prob_markov loyal_db 1 0 (3/2) 48 1 2 ''apple'' ''apple'' = Inr s1
      \<and> sold_prob_markov loyal_db 1 (3/4) (3/2) 48 1 2 ''apple'' ''apple'' = Inr s2
      \<and> s1 \<le> s2)
   \<and> sold_prob_markov loyal_db 1 0 (- 2000) 48 1 2 ''apple'' ''apple'' = Inl OverflowError
   \<and> sold_prob_markov loyal_db 1 (3/4) (- 2000) 48 1 2 ''apple'' ''apple'' = Inl OverflowError"
proof -
  have K: "(1::int) \<le> 48" by simp
  have d: "(0::real) \<le> 3/4" "(3/4::real) \<le> 1 \<or> (1::real) < 0" by simp_all
  have mono: "\<forall>d d'. 0 \<le> d \<and> d \<le> d'
                 \<and> d' \<le> 100 * max 0 (if (3/4::real) > 1 then (3/4) / 100 else 3/4)
               \<longrightarrow> p_buy_blend loyal_db 2 ''apple'' ''apple'' d 15
                    \<le> p_buy_blend loyal_db 2 ''apple'' ''apple'' d' 15"
    unfolding loyal_db_other_user_blend using linear_fallback_mono by blast
  have le1: "\<forall>d. 0 \<le> d \<and> d \<le> 100 * max 0 (if (3/4::real) > 1 then (3/4) / 100 else 3/4)
               \<longrightarrow> p_buy_blend loyal_db 2 ''apple'' ''apple'' d 15 \<le> 1"
    unfolding loyal_db_other_user_blend by (simp add: min.coboundedI1)
  have al: "(0::real) \<le> 3/2" by simp
  note t = sale_probability_monotone_in_dmax [OF K d mono le1, of "3/2" 1 1]
  note no = t [THEN conjunct2, THEN conjunct2, THEN mp, OF al]
  note a = t [THEN conjunct1, THEN mp, OF no]
  have o: "power_overflows (nat 48) (- 2000)" using power_overflows_example by simp
  note t' = sale_probability_monotone_in_dmax [OF K d mono le1, of "- 2000" 1 1]
  note b = t' [THEN conjunct2, THEN conjunct1, THEN mp, OF o]
  show ?thesis using a b by (intro conjI) auto
qed

theorem sale_probability_drops_with_dmax:
  "sold_prob_markov loyal_db 1 0 1 2 1 1 ''apple'' ''apple'' = Inr (540718151 / 550371600)
   \<and> sold_prob_markov loyal_db 1 (3/4) 1 2 1 1 ''apple'' ''apple'' = Inr (3439793 / 3753600)
   \<and> (3439793 / 3753600 :: real) < 540718151 / 550371600"
proof -
  have K: "(1::int) \<le> 2" by simp
  have no: "\<not> power_overflows (nat 2) 1" by (rule nonneg_power_no_overflow) simp
  have s: "{Suc 0..2::nat} = {Suc 0, 2}" by auto
  have a1: "bucket_prob loyal_db 0 1 2 1 ''apple'' ''apple'' (Suc 0) = 20353 / 23460"
    by (simp add: bucket_prob_def calc_discount_power_one
        p_buy_blend_def p_buy_pop_interp_def p_buy_user_beta_def loyal_db_def)
  have a2: "bucket_prob loyal_db 0 1 2 1 ''apple'' ''apple'' 2 = 20353 / 23460"
    by (simp add: bucket_prob_def calc_discount_power_one
        p_buy_blend_def p_buy_pop_interp_def p_buy_user_beta_def loyal_db_def)
  have b1: "bucket_prob loyal_db (3/4) 1 2 1 ''apple'' ''apple'' (Suc 0) = 20353 / 23460"
    by (simp add: bucket_prob_def calc_discount_power_one
        p_buy_blend_def p_buy_pop_interp_def p_buy_user_beta_def loyal_db_def)
  have b2: "bucket_prob loyal_db (3/4) 1 2 1 ''apple'' ''apple'' 2 = 59 / 160"
    by (simp add: bucket_prob_def calc_discount_power_one
        p_buy_blend_def p_buy_pop_interp_def p_buy_user_beta_def loyal_db_def)
  have "sold_prob_markov loyal_db 1 0 1 2 1 1 ''apple'' ''apple'' = Inr (540718151 / 550371600)"
    by (simp add: sold_prob_markov_closed_form[OF K no] s a1 a2)
  moreover have "sold_prob_markov loyal_db 1 (3/4) 1 2 1 1 ''apple'' ''apple'' = Inr (3439793 / 3753600)"
    by (simp add: sold_prob_markov_closed_form[OF K no] s b1 b2)
  moreover have "(3439793 / 3753600 :: real) < 540718151 / 550371600" by simp
  ultimately show ?thesis by blast
qed

subsection \<open>Aggregate over a single lot\<close>

lemma round2_zero: "round2 0 = 0"
  by (simp add: round2_def)

lemma aggregate_item_single:
  assumes e: "estimate_units_saved db (item_id item) bp dp uid 48 1 = Inr units"
  shows "units_saved (aggregate_item db bp dp uid item zero_metrics) = units"
    and "co2e_saved (aggregate_item db bp dp uid item zero_metrics)
           = estimate_co2e_saved db units (fruit_type item)"
    and "revenue_generated (aggregate_item db bp dp uid item zero_metrics)
           = estimate_additional_revenue_generated units (fruit_type item)
               (if current_price item > 0 then current_price item else original_price item)"
proof -
  have nn: "0 \<le> units" using e by (rule estimate_units_saved_nonneg)
  show "units_saved (aggregate_item db bp dp uid item zero_metrics) = units"
    using nn by (simp add: aggregate_item_def e Let_def zero_metrics_def)
  show "co2e_saved (aggregate_item db bp dp uid item zero_metrics)
           = estimate_co2e_saved db units (fruit_type item)"
  proof (cases "units > 0")
    case True
    then show ?thesis by (simp add: aggregate_item_def e Let_def zero_metrics_def)
  next
    case False
    then have "units \<le> 0" by simp
    then show ?thesis using False
      by (simp add: aggregate_item_def e zero_metrics_def estimate_co2e_saved_def)
  qed
  show "revenue_generated (aggregate_item db bp dp uid item zero_metrics)
           = estimate_additional_revenue_generated units (fruit_type item)
               (if current_price item > 0 then current_price item else original_price item)"
  proof (cases "units > 0")
    case True
    then show ?thesis by (simp add: aggregate_item_def e Let_def zero_metrics_def)
  next
    case False
    then have "units = 0" using nn by simp
    then show ?thesis
      by (simp add: aggregate_item_def e zero_metrics_def estimate_additional_revenue_generated_def)
  qed
qed

lemma aggregate_single_item_unfold:
  assumes m: "models_available db"
    and user: "(case user_id of
                    None \<Rightarrow> (case customers db of [] \<Rightarrow> None | c # cs \<Rightarrow> Some c)
                  | Some u \<Rightarrow> Some u) = Some uid"
    and items: "(case store of
                   None \<Rightarrow> filter (\<lambda>i. quantity i > 0) (inventory db)
                 | Some s \<Rightarrow> if s \<noteq> 0
                             then filter (\<lambda>i. store_id i = s)
                                    (filter (\<lambda>i. quantity i > 0) (inventory db))
                             else filter (\<lambda>i. quantity i > 0) (inventory db)) = [item]"
    and bp: "bp = (case baseline_params of None \<Rightarrow> \<lparr>dmax = 0, alpha = 1\<rparr> | Some b \<Rightarrow> b)"
    and dp: "dp = (case dynamic_params of None \<Rightarrow> \<lparr>dmax = 0.75, alpha = 1.5\<rparr> | Some d \<Rightarrow> d)"
  shows "compute_aggregate_impact db store user_id baseline_params dynamic_params =
               (let totals = aggregate_item db bp dp uid item zero_metrics
                in \<lparr>units_saved = round2 (units_saved totals),
                    waste_saved_kg = round2 (waste_saved_kg totals),
                    co2e_saved = round2 (co2e_saved totals),
                    revenue_generated = round2 (revenue_generated totals)\<rparr>)"
  using m user items
  by (simp add: compute_aggregate_impact_def Let_def bp dp split: option.splits)

lemma aggregate_no_user:
  assumes "(case user_id of
                    None \<Rightarrow> (case customers db of [] \<Rightarrow> None | c # cs \<Rightarrow> Some c)
                  | Some u \<Rightarrow> Some u) = None"
  shows "compute_aggregate_impact db store user_id baseline_params dynamic_params = zero_metrics"
  using assms by (simp add: compute_aggregate_impact_def Let_def)

text \<open>
  C8, as the code has it. Let the lots selected by the store filter and \<open>quantity > 0\<close>
  be exactly one lot. When the user is given or a first customer exists, and the
  per-lot estimate for that user (with \<open>K = 48\<close>) returns a value, each of
  \<open>units_saved\<close>, \<open>co2e_saved\<close> and \<open>revenue_generated\<close> of the aggregate is the per-lot
  estimate for that lot (the price per unit being the current price if positive and the
  original price otherwise), rounded to two decimal places; the estimate returns a
  value when no power overflows, as for every \<open>alpha \<ge> 0\<close>. When the per-lot estimate
  raises, or when no user is given and there is no customer, all totals are 0.
\<close>

theorem single_lot_aggregate:
  assumes items: "(case store of
                   None \<Rightarrow> filter (\<lambda>i. quantity i > 0) (inventory db)
                 | Some s \<Rightarrow> if s \<noteq> 0
                             then filter (\<lambda>i. store_id i = s)
                                    (filter (\<lambda>i. quantity i > 0) (inventory db))
                             else filter (\<lambda>i. quantity i > 0) (inventory db)) = [item]"
    and bp: "bp = (case baseline_params of None \<Rightarrow> \<lparr>dmax = 0, alpha = 1\<rparr> | Some b \<Rightarrow> b)"
    and dp: "dp = (case dynamic_params of None \<Rightarrow> \<lparr>dmax = 0.75, alpha = 1.5\<rparr> | Some d \<Rightarrow> d)"
  shows "((case user_id of
             None \<Rightarrow> (case customers db of [] \<Rightarrow> None | c # cs \<Rightarrow> Some c)
           | Some u \<Rightarrow> Some u) = Some uid \<longrightarrow>
           (\<forall>units. estimate_units_saved db (item_id item) bp dp uid 48 1 = Inr units \<longrightarrow>
              units_saved (compute_aggregate_impact db store user_id baseline_params dynamic_params)
                = round2 units
              \<and> co2e_saved (compute_aggregate_impact db store user_id baseline_params dynamic_params)
                = round2 (estimate_co2e_saved db units (fruit_type item))
              \<and> revenue_generated
                  (compute_aggregate_impact db store user_id baseline_params dynamic_params)
                = round2 (estimate_additional_revenue_generated units (fruit_type item)
                           (if current_price item > 0 then current_price item
                            else original_price item)))
           \<and> (\<not> power_overflows 48 (alpha dp) \<and> \<not> power_overflows 48 (alpha bp) \<longrightarrow>
                (\<exists>units. estimate_units_saved db (item_id item) bp dp uid 48 1 = Inr units))
           \<and> (\<forall>e. estimate_units_saved db (item_id item) bp dp uid 48 1 = Inl e \<longrightarrow>
                compute_aggregate_impact db store user_id baseline_params dynamic_params
                  = zero_metrics))
         \<and> ((case user_id of
                None \<Rightarrow> (case customers db of [] \<Rightarrow> None | c # cs \<Rightarrow> Some c)
              | Some u \<Rightarrow> Some u) = None \<longrightarrow>
              compute_aggregate_impact db store user_id baseline_params dynamic_params
                = zero_metrics)
         \<and> (0 \<le> alpha dp \<and> 0 \<le> alpha bp \<longrightarrow>
              \<not> power_overflows 48 (alpha dp) \<and> \<not> power_overflows 48 (alpha bp))"
proof (intro conjI impI allI)
  fix units
  assume user: "(case user_id of
             None \<Rightarrow> (case customers db of [] \<Rightarrow> None | c # cs \<Rightarrow> Some c)
           | Some u \<Rightarrow> Some u) = Some uid"
    and e: "estimate_units_saved db (item_id item) bp dp uid 48 1 = Inr units"
  have all: "units_saved (compute_aggregate_impact db store user_id baseline_params dynamic_params)
                = round2 units
              \<and> co2e_saved (compute_aggregate_impact db store user_id baseline_params dynamic_params)
                = round2 (estimate_co2e_saved db units (fruit_type item))
              \<and> revenue_generated
                  (compute_aggregate_impact db store user_id baseline_params dynamic_params)
                = round2 (estimate_additional_revenue_generated units (fruit_type item)
                           (if current_price item > 0 then current_price item
                            else original_price item))"
  proof (cases "models_available db")
    case False
    then have u0: "units = 0" using e by (simp add: estimate_units_saved_def)
    have "compute_aggregate_impact db store user_id baseline_params dynamic_params = zero_metrics"
      using False by (simp add: compute_aggregate_impact_def)
    then show ?thesis
      using u0 False
      by (simp add: zero_metrics_def round2_zero estimate_co2e_saved_def
            estimate_additional_revenue_generated_def)
  next
    case True
    note c = aggregate_single_item_unfold[OF True user items bp dp]
    show ?thesis using aggregate_item_single[OF e] by (simp add: c Let_def)
  qed
  show "units_saved (compute_aggregate_impact db store user_id baseline_params dynamic_params)
                = round2 units" using all by simp
  show "co2e_saved (compute_aggregate_impact db store user_id baseline_params dynamic_params)
                = round2 (estimate_co2e_saved db units (fruit_type item))" using all by simp
  show "revenue_generated
                  (compute_aggregate_impact db store user_id baseline_params dynamic_params)
                = round2 (estimate_additional_revenue_generated units (fruit_type item)
                           (if current_price item > 0 then current_price item
                            else original_price item))" using all by simp
next
  assume "\<not> power_overflows 48 (alpha dp) \<and> \<not> power_overflows 48 (alpha bp)"
  then have nd: "\<not> power_overflows (nat 48) (alpha dp)" and nb: "\<not> power_overflows (nat 48) (alpha bp)"
    by simp_all
  have K: "(1::int) \<le> 48" by simp
  show "\<exists>units. estimate_units_saved db (item_id item) bp dp uid 48 1 = Inr units"
    by (rule estimate_units_saved_defined[OF K nd nb])
next
  fix e
  assume user: "(case user_id of
             None \<Rightarrow> (case customers db of [] \<Rightarrow> None | c # cs \<Rightarrow> Some c)
           | Some u \<Rightarrow> Some u) = Some uid"
    and e: "estimate_units_saved db (item_id item) bp dp uid 48 1 = Inl e"
  have m: "models_available db"
  proof (rule ccontr)
    assume "\<not> models_available db"
    then show False using e by (simp add: estimate_units_saved_def)
  qed
  note c = aggregate_single_item_unfold[OF m user items bp dp]
  have "aggregate_item db bp dp uid item zero_metrics = zero_metrics"
    by (simp add: aggregate_item_def e)
  then show "compute_aggregate_impact db store user_id baseline_params dynamic_params = zero_metrics"
    by (simp add: c Let_def zero_metrics_def round2_zero)
next
  assume "(case user_id of
                None \<Rightarrow> (case customers db of [] \<Rightarrow> None | c # cs \<Rightarrow> Some c)
              | Some u \<Rightarrow> Some u) = None"
  then show "compute_aggregate_impact db store user_id baseline_params dynamic_params = zero_metrics"
    by (rule aggregate_no_user)
next
  assume "0 \<le> alpha dp \<and> 0 \<le> alpha bp"
  then show "\<not> power_overflows 48 (alpha dp)" by (intro nonneg_power_no_overflow) simp
next
  assume "0 \<le> alpha dp \<and> 0 \<le> alpha bp"
  then show "\<not> power_overflows 48 (alpha bp)" by (intro nonneg_power_no_overflow) simp
qed

theorem single_lot_aggregate_witness:
  "(\<exists>units. estimate_units_saved seeded_db 1 \<lparr>dmax = 0, alpha = 1\<rparr> \<lparr>dmax = 0.75, alpha = 1.5\<rparr> 1 48 1
             = Inr units
     \<and> units_saved (compute_aggregate_impact seeded_db None None None None) = round2 units
     \<and> co2e_saved (compute_aggregate_impact seeded_db None None None None)
         = round2 (estimate_co2e_saved seeded_db units ''apple'')
     \<and> revenue_generated (compute_aggregate_impact seeded_db None None None None)
         = round2 (estimate_additional_revenue_generated units ''apple'' 2))
   \<and> estimate_units_saved seeded_db 1 \<lparr>dmax = 0, alpha = 1\<rparr> \<lparr>dmax = 0.5, alpha = - 2000\<rparr> 1 48 1
       = Inl OverflowError
   \<and> compute_aggregate_impact seeded_db None None None (Some \<lparr>dmax = 0.5, alpha = - 2000\<rparr>)
       = zero_metrics
   \<and> compute_aggregate_impact no_customer_db None None None None = zero_metrics"
proof -
  let ?lot = "\<lparr>item_id = 1, store_id = 1, fruit_type = ''apple'', quantity = 100,
               current_price = 0, original_price = 2, freshness = Some 0.2\<rparr>"
  let ?lot' = "\<lparr>item_id = 1, store_id = 1, fruit_type = ''apple'', quantity = 100,
               current_price = 1, original_price = 2, freshness = Some 0\<rparr>"
  let ?bp = "\<lparr>dmax = 0, alpha = 1\<rparr>"
  let ?dp = "\<lparr>dmax = 0.75, alpha = 1.5\<rparr>"
  let ?op = "\<lparr>dmax = 0.5, alpha = - 2000\<rparr>"
  have user: "(case None of
                 None \<Rightarrow> (case customers seeded_db of [] \<Rightarrow> None | c # cs \<Rightarrow> Some c)
               | Some u \<Rightarrow> Some u) = Some 1"
    by (simp add: seeded_db_def)
  have items: "(case None of
                  None \<Rightarrow> filter (\<lambda>i. quantity i > 0) (inventory seeded_db)
                | Some s \<Rightarrow> if s \<noteq> 0
                            then filter (\<lambda>i. store_id i = s)
                                   (filter (\<lambda>i. quantity i > 0) (inventory seeded_db))
                            else filter (\<lambda>i. quantity i > 0) (inventory seeded_db)) = [?lot]"
    by (simp add: seeded_db_def)
  have bp: "?bp = (case None of None \<Rightarrow> \<lparr>dmax = 0, alpha = 1\<rparr> | Some b \<Rightarrow> b)" by simp
  have dp: "?dp = (case None of None \<Rightarrow> \<lparr>dmax = 0.75, alpha = 1.5\<rparr> | Some d \<Rightarrow> d)" by simp
  have op: "?op = (case Some ?op of None \<Rightarrow> \<lparr>dmax = 0.75, alpha = 1.5\<rparr> | Some d \<Rightarrow> d)" by simp
  note t = single_lot_aggregate [OF items bp dp, of None 1]
  have al: "0 \<le> alpha ?dp \<and> 0 \<le> alpha ?bp" by simp
  note no = t [THEN conjunct2, THEN conjunct2, THEN mp, OF al]
  note main = t [THEN conjunct1, THEN mp, OF user]
  from main [THEN conjunct2, THEN conjunct1, THEN mp, OF no] obtain units where
    e: "estimate_units_saved seeded_db (item_id ?lot) ?bp ?dp 1 48 1 = Inr units" by blast
  note eqs = main [THEN conjunct1, THEN spec, THEN mp, OF e]
  have e': "estimate_units_saved seeded_db 1 ?bp ?dp 1 48 1 = Inr units" using e by simp
  have a: "\<exists>units. estimate_units_saved seeded_db 1 ?bp ?dp 1 48 1 = Inr units
     \<and> units_saved (compute_aggregate_impact seeded_db None None None None) = round2 units
     \<and> co2e_saved (compute_aggregate_impact seeded_db None None None None)
         = round2 (estimate_co2e_saved seeded_db units ''apple'')
     \<and> revenue_generated (compute_aggregate_impact seeded_db None None None None)
         = round2 (estimate_additional_revenue_generated units ''apple'' 2)"
    using e' eqs by (intro exI[of _ units]) simp
  have m: "models_available seeded_db" by (simp add: seeded_db_def)
  have f: "find (\<lambda>i. item_id i = 1) (inventory seeded_db) = Some ?lot" by (simp add: seeded_db_def)
  have o: "power_overflows (nat 48) (alpha ?op) \<or> power_overflows (nat 48) (alpha ?bp)"
    using power_overflows_example by simp
  have b: "estimate_units_saved seeded_db 1 ?bp ?op 1 48 1 = Inl OverflowError"
    by (rule estimate_units_saved_overflow[OF m f o])
  then have b': "estimate_units_saved seeded_db (item_id ?lot) ?bp ?op 1 48 1 = Inl OverflowError"
    by simp
  note t2 = single_lot_aggregate [OF items bp op, of None 1]
  note main2 = t2 [THEN conjunct1, THEN mp, OF user]
  note c = main2 [THEN conjunct2, THEN conjunct2, THEN spec, THEN mp, OF b']
  have items': "(case None of
                  None \<Rightarrow> filter (\<lambda>i. quantity i > 0) (inventory no_customer_db)
                | Some s \<Rightarrow> if s \<noteq> 0
                            then filter (\<lambda>i. store_id i = s)
                                   (filter (\<lambda>i. quantity i > 0) (inventory no_customer_db))
                            else filter (\<lambda>i. quantity i > 0) (inventory no_customer_db)) = [?lot']"
    by (simp add: no_customer_db_def)
  have nouser: "(case None of
                 None \<Rightarrow> (case customers no_customer_db of [] \<Rightarrow> None | c # cs \<Rightarrow> Some c)
               | Some u \<Rightarrow> Some u) = None"
    by (simp add: no_customer_db_def)
  note t3 = single_lot_aggregate [OF items' bp dp, of None 1]
  note d = t3 [THEN conjunct2, THEN conjunct1, THEN mp, OF nouser]
  show ?thesis using a b c d by (intro conjI)
qed

lemma no_customer_bucket:
  "bucket_prob no_customer_db (3/4) 1 48 1 ''apple'' ''apple'' 48 = 863 / 1280"
proof -
  have "calculate_discount_from_freshness (1 - (real (48::nat) - 1) / real (48::nat)) (3/4) 1
          = Inr (47 / 64)"
    by (simp add: calc_discount_power_one)
  then show ?thesis
    by (simp add: bucket_prob_def p_buy_blend_def p_buy_pop_interp_def p_buy_user_beta_def
        no_customer_db_def)
qed

lemma no_customer_bucket_base:
  "bucket_prob no_customer_db 0 1 48 1 ''apple'' ''apple'' 48 = 1 / 20"
proof -
  have "calculate_discount_from_freshness (1 - (real (48::nat) - 1) / real (48::nat)) 0 1
          = Inr 0"
    by (simp add: calc_discount_power_one)
  then show ?thesis
    by (simp add: bucket_prob_def p_buy_blend_def p_buy_pop_interp_def p_buy_user_beta_def
        no_customer_db_def)
qed

theorem no_customer_aggregate_zero:
  "units_saved (compute_aggregate_impact no_customer_db None None None
                  (Some \<lparr>dmax = 0.75, alpha = 1\<rparr>)) = 0
   \<and> estimate_units_saved no_customer_db 1 \<lparr>dmax = 0, alpha = 1\<rparr> \<lparr>dmax = 0.75, alpha = 1\<rparr> 1 48 1
       = Inr (3995 / 64)
   \<and> round2 (3995 / 64) = 6242 / 100"
proof -
  have K: "(1::int) \<le> 48" by simp
  have no: "\<not> power_overflows (nat 48) 1" by (rule nonneg_power_no_overflow) simp
  have m: "models_available no_customer_db" by (simp add: no_customer_db_def)
  have f: "find (\<lambda>i. item_id i = 1) (inventory no_customer_db) =
             Some \<lparr>item_id = 1, store_id = 1, fruit_type = ''apple'', quantity = 100,
                   current_price = 1, original_price = 2, freshness = Some 0\<rparr>"
    by (simp add: no_customer_db_def)
  have s: "{48..48::nat} = {48}" by simp
  have dyn: "sold_prob_markov no_customer_db 0 (3/4) 1 48 1 1 ''apple'' ''apple'' = Inr (863 / 1280)"
    by (simp add: sold_prob_markov_closed_form[OF K no] no_customer_bucket)
  have base: "sold_prob_markov no_customer_db 0 0 1 48 1 1 ''apple'' ''apple'' = Inr (1 / 20)"
    by (simp add: sold_prob_markov_closed_form[OF K no] no_customer_bucket_base)
  have a: "compute_aggregate_impact no_customer_db None None None (Some \<lparr>dmax = 0.75, alpha = 1\<rparr>)
             = zero_metrics"
    by (rule aggregate_no_user) (simp add: no_customer_db_def)
  have b: "estimate_units_saved no_customer_db 1 \<lparr>dmax = 0, alpha = 1\<rparr> \<lparr>dmax = 0.75, alpha = 1\<rparr> 1 48 1
             = Inr (3995 / 64)"
    by (simp add: estimate_units_saved_item[OF m f] dyn base)
  have c: "round2 (3995 / 64) = 6242 / 100"
    by (simp add: round2_def Let_def)
  show ?thesis using a b c by (simp add: zero_metrics_def)
qed

end
